theory Spec2Isabelle
  imports Main "HOL-Library.AList" "HOL-Library.Multiset" "HOL-Library.List_Lexorder"
    "HOL-Library.Char_ord" "HOL-Library.While_Combinator"
begin

section \<open>Tokens\<close>

text \<open>
  The tokens come from the package textkit, which is outside the repository. The parser
  reads four fields of a token: its type, its form (the lexeme), its location and its tag.
  Go strings are byte sequences and are modelled as \<open>string\<close>; the form of a token, a
  slice of runes in Go, is modelled by the string it converts to.
\<close>

datatype TokenType = Word | Symbol | Number | String | EOL | EOF

record Location =
  Line :: int
  Column :: int

record Token =
  Type :: TokenType
  Form :: string
  Loc :: Location
  Tag :: string

section \<open>Actions and panics\<close>

text \<open>
  The four action types of lrparser.go. Both tables of a grammar hold values of the
  interface type \<open>action\<close>.
\<close>

datatype action =
    shiftAction string
  | reduceAction nat
  | acceptAction
  | gotoAction string

text \<open>
  A run-time panic of the Go program is a value of the model. An index or slice expression
  out of range carries the expression that failed; the conflict panic of BuildItems
  carries the terminal and the action found in the cell.
\<close>

datatype panic =
    IndexOutOfRange string
  | SliceBoundsOutOfRange string
  | Conflict string action
  | CantReduce
  | TypeAssertionFailed

section \<open>CoalesceSymbols\<close>

text \<open>
  The map \<open>m\<close> of CoalesceSymbols sends the first byte of a cluster to the clusters that
  start with it, in list order. \<open>c[:1]\<close> panics on the empty cluster. Reading a missing
  key of a Go map yields the nil slice.
\<close>

definition lookup_list :: "('k \<rightharpoonup> 'a list) \<Rightarrow> 'k \<Rightarrow> 'a list" where
  "lookup_list m k = (case m k of None \<Rightarrow> [] | Some cs \<Rightarrow> cs)"

fun index_clusters :: "(string \<rightharpoonup> string list) \<Rightarrow> string list \<Rightarrow> panic + (string \<rightharpoonup> string list)" where
  "index_clusters m [] = Inr m"
| "index_clusters m (c # cs) =
     (if c = [] then Inl (SliceBoundsOutOfRange ''c[:1]'')
      else index_clusters (m(take 1 c \<mapsto> lookup_list m (take 1 c) @ [c])) cs)"

text \<open>
  The loop over \<open>j\<close>: it leaves with \<open>break\<close> at the first token that does not match
  (the result False), and jumps to \<open>cont\<close> once the last byte of the cluster has matched
  (the result True). When the loop runs to its end without either, nothing is fused.
\<close>

function match_rest :: "Token list \<Rightarrow> nat \<Rightarrow> string \<Rightarrow> nat \<Rightarrow> bool" where
  "match_rest tokens i c j =
     (if j < length c then
        (let t2 = tokens ! (i + j) in
         if (Type t2 \<noteq> Symbol \<and> Type t2 \<noteq> Word) \<or> Form t2 \<noteq> [c ! j] then False
         else if j + 1 = length c then True
         else match_rest tokens i c (j + 1))
      else False)"
  by pat_completeness auto
termination
  by (relation "measure (\<lambda>(tokens, i, c, j). length c - j)") auto

declare match_rest.simps [simp del]

text \<open>The loop over the clusters \<open>cs\<close> registered for the form of the token at \<open>i\<close>.\<close>

fun try_clusters :: "Token list \<Rightarrow> nat \<Rightarrow> string list \<Rightarrow> string option" where
  "try_clusters tokens i [] = None"
| "try_clusters tokens i (c # cs) =
     (if length c \<le> length tokens - i \<and> match_rest tokens i c 1 then Some c
      else try_clusters tokens i cs)"

text \<open>The loop over \<open>i\<close>, with the output \<open>tokens2\<close> as accumulator.\<close>

function coalesce_loop :: "(string \<rightharpoonup> string list) \<Rightarrow> Token list \<Rightarrow> nat \<Rightarrow> Token list \<Rightarrow> Token list" where
  "coalesce_loop m tokens i tokens2 =
     (if i < length tokens then
        (let t = tokens ! i in
         case (if Type t = Symbol
               then (case m (Form t) of Some cs \<Rightarrow> try_clusters tokens i cs | None \<Rightarrow> None)
               else None) of
           Some c \<Rightarrow>
             coalesce_loop m tokens (i + (length c - 1) + 1)
               (tokens2 @ [\<lparr>Type = Symbol, Form = c, Loc = Loc t, Tag = ''''\<rparr>])
         | None \<Rightarrow> coalesce_loop m tokens (i + 1) (tokens2 @ [t]))
      else tokens2)"
  by pat_completeness auto
termination
  by (relation "measure (\<lambda>(m, tokens, i, tokens2). length tokens - i)") auto

declare coalesce_loop.simps [simp del]

definition CoalesceSymbols :: "Token list \<Rightarrow> string list \<Rightarrow> panic + Token list" where
  "CoalesceSymbols tokens clusters =
     (case index_clusters Map.empty clusters of
        Inl e \<Rightarrow> Inl e
      | Inr m \<Rightarrow> Inr (coalesce_loop m tokens 0 []))"

subsection \<open>What the specification says of the fused stream\<close>

text \<open>
  A cluster fits at the head of a token list when it has at least two bytes, the list is
  long enough, the first token is a symbol, and the tokens are, one by one, symbol or
  word tokens whose form is the corresponding single byte of the cluster.
\<close>

definition fits :: "string \<Rightarrow> Token list \<Rightarrow> bool" where
  "fits c ts \<longleftrightarrow>
     2 \<le> length c \<and> length c \<le> length ts \<and> Type (hd ts) = Symbol \<and>
     list_all2 (\<lambda>t ch. (Type t = Symbol \<or> Type t = Word) \<and> Form t = [ch]) (take (length c) ts) c"

text \<open>
  The stream the specification describes: at each position the first cluster of the list
  that fits is fused into one symbol token at the location of the first fused token, and a
  token at which no cluster fits is copied.
\<close>

function fuse_spec :: "string list \<Rightarrow> Token list \<Rightarrow> Token list" where
  "fuse_spec clusters [] = []"
| "fuse_spec clusters (t # ts) =
     (case find (\<lambda>c. fits c (t # ts)) clusters of
        Some c \<Rightarrow> \<lparr>Type = Symbol, Form = c, Loc = Loc t, Tag = ''''\<rparr> # fuse_spec clusters (drop (length c - 1) ts)
      | None \<Rightarrow> t # fuse_spec clusters ts)"
  by pat_completeness auto
termination
  by (relation "measure (\<lambda>(clusters, ts). length ts)") auto

text \<open>The test of one token against one byte of a cluster, as the loop over \<open>j\<close> makes it.\<close>

definition tok_ok :: "Token list \<Rightarrow> string \<Rightarrow> nat \<Rightarrow> nat \<Rightarrow> bool" where
  "tok_ok tokens c i k \<longleftrightarrow>
     (Type (tokens ! (i + k)) = Symbol \<or> Type (tokens ! (i + k)) = Word) \<and>
     Form (tokens ! (i + k)) = [c ! k]"

section \<open>Ranging over a Go map\<close>

text \<open>
  Go does not specify the order in which \<open>range\<close> visits the keys of a map. A map is
  modelled by an association list with distinct keys, and every function that ranges over
  a map takes the order as a parameter \<open>rng\<close>: for a map of \<open>n\<close> entries, \<open>rng n\<close>
  lists the positions in the order of the visit. An order that visits every entry once is
  a permutation of the positions.
\<close>

definition range_order :: "(nat \<Rightarrow> nat list) \<Rightarrow> 'a list \<Rightarrow> 'a list" where
  "range_order rng xs = map (\<lambda>i. xs ! i) (filter (\<lambda>i. i < length xs) (rng (length xs)))"

definition is_order :: "(nat \<Rightarrow> nat list) \<Rightarrow> bool" where
  "is_order rng \<longleftrightarrow> (\<forall>n. mset (rng n) = mset [0..<n])"

definition insertion_order :: "nat \<Rightarrow> nat list" where
  "insertion_order n = [0..<n]"

definition reverse_order :: "nat \<Rightarrow> nat list" where
  "reverse_order n = rev [0..<n]"

section \<open>Rules, items and states\<close>

text \<open>
  The semantic values of a parse are the tokens that were shifted and whatever the folds
  of the rules return. A fold can panic, as every Go function can.
\<close>

datatype 'a val = TokenVal Token | Val 'a

record 'v Rule =
  LHS :: string
  RHS :: "string list"
  Conv :: "'v list \<Rightarrow> panic + 'v"

record Item =
  ItemLHS :: string
  ItemRHS :: "string list"
  DotPos :: nat

text \<open>Item.String: the loop over the right-hand side with its index, then the closing dot.\<close>

fun Item_String_loop :: "nat \<Rightarrow> nat \<Rightarrow> string list \<Rightarrow> string" where
  "Item_String_loop d i [] = []"
| "Item_String_loop d i (el # els) =
     '' '' @ (if d = i then ''*'' else []) @ el @ Item_String_loop d (i + 1) els"

definition Item_String :: "Item \<Rightarrow> string" where
  "Item_String it =
     ItemLHS it @ '' ->'' @ Item_String_loop (DotPos it) 0 (ItemRHS it)
       @ (if DotPos it = length (ItemRHS it) then ''*'' else []) @ '';''"

record State =
  Items :: "Item list"

text \<open>
  State.String sorts the items of the state in place by their strings and joins the
  strings with a space. The comparison it hands to sort.Slice is a strict order on the
  strings of the items, so the slice ends up sorted; \<open>State_sorted\<close> is the state after the
  call and \<open>State_String\<close> the key returned.
\<close>

fun Join :: "string list \<Rightarrow> string \<Rightarrow> string" where
  "Join [] sep = []"
| "Join [x] sep = x"
| "Join (x # y # ys) sep = x @ sep @ Join (y # ys) sep"

definition State_sorted :: "State \<Rightarrow> State" where
  "State_sorted st = \<lparr>Items = sort_key Item_String (Items st)\<rparr>"

definition State_String :: "State \<Rightarrow> string" where
  "State_String st = Join (map Item_String (Items (State_sorted st))) '' ''"

type_synonym tableKey = "string \<times> string"

record 'v Grammar =
  Rules :: "'v Rule list"
  states :: "(string \<times> State) list"
  initialState :: string
  actionTable :: "(tableKey \<times> action) list"
  gotoTable :: "(tableKey \<times> action) list"

section \<open>closeItems\<close>

text \<open>
  The body of the loop over the rules in closeItems: a rule for the symbol after the dot
  enters the map \<open>m\<close> and the work list unless its item string is a key of \<open>m\<close> already.
\<close>

definition add_rule :: "string \<Rightarrow> 'v Rule \<Rightarrow> (string \<times> Item) list \<times> Item list \<Rightarrow> (string \<times> Item) list \<times> Item list" where
  "add_rule symb rule mi =
     (if LHS rule = symb then
        (let it2 = \<lparr>ItemLHS = LHS rule, ItemRHS = RHS rule, DotPos = 0\<rparr> in
         if map_of (fst mi) (Item_String it2) = None
         then (AList.update (Item_String it2) it2 (fst mi), snd mi @ [it2])
         else mi)
      else mi)"

definition rule_keys :: "'v Rule list \<Rightarrow> string set" where
  "rule_keys rules = (\<lambda>r. Item_String \<lparr>ItemLHS = LHS r, ItemRHS = RHS r, DotPos = 0\<rparr>) ` set rules"

text \<open>
  The work-list loop of closeItems. It ends because every pass either shortens the work
  list or adds to \<open>m\<close> the item string of a rule that was not a key before; the proof is
  given with the lemmas below.
\<close>

function closeItems_loop :: "'v Rule list \<Rightarrow> (string \<times> Item) list \<Rightarrow> Item list \<Rightarrow> (string \<times> Item) list" where
  "closeItems_loop rules m [] = m"
| "closeItems_loop rules m (it # items) =
     (if DotPos it < length (ItemRHS it) then
        (let mi = fold (add_rule (ItemRHS it ! DotPos it)) rules (m, items)
         in closeItems_loop rules (fst mi) (snd mi))
      else closeItems_loop rules m items)"
  by pat_completeness auto

text \<open>
  closeItems enters the given items into \<open>m\<close> under their strings, runs the loop, and
  returns the values of \<open>m\<close> in the order in which \<open>range\<close> visits them.
\<close>

definition closeItems :: "(nat \<Rightarrow> nat list) \<Rightarrow> 'v Rule list \<Rightarrow> Item list \<Rightarrow> Item list" where
  "closeItems rng rules items =
     range_order rng
       (map snd (closeItems_loop rules (fold (\<lambda>it m. AList.update (Item_String it) it m) items []) items))"

section \<open>BuildItems\<close>

text \<open>
  The set \<open>tr\<close> of the symbols after a dot, and the items of a state advanced over a
  symbol.
\<close>

definition next_symbols :: "State \<Rightarrow> string list" where
  "next_symbols state =
     map fst (fold (\<lambda>it tr. if DotPos it < length (ItemRHS it)
                             then AList.update (ItemRHS it ! DotPos it) () tr else tr)
                   (Items state) [])"

definition goto_items :: "State \<Rightarrow> string \<Rightarrow> Item list" where
  "goto_items state symb =
     map (\<lambda>it. \<lparr>ItemLHS = ItemLHS it, ItemRHS = ItemRHS it, DotPos = DotPos it + 1\<rparr>)
       (filter (\<lambda>it. DotPos it < length (ItemRHS it) \<and> ItemRHS it ! DotPos it = symb) (Items state))"

definition terminal_prefix :: "string \<Rightarrow> bool" where
  "terminal_prefix symb \<longleftrightarrow> hd symb = CHR ''_'' \<or> hd symb = CHR ''&''"

definition mark_accept :: "Item \<Rightarrow> string \<Rightarrow> Item \<Rightarrow> (tableKey \<times> action) list \<Rightarrow> (tableKey \<times> action) list" where
  "mark_accept acceptingItem key2 it tbl =
     (if Item_String it = Item_String acceptingItem
      then AList.update (key2, ''_EOF'') acceptAction tbl else tbl)"

text \<open>
  The body of the loop over the symbols of \<open>tr\<close>, for the state \<open>state\<close> taken from the
  work list \<open>queue\<close> (the local variable \<open>states\<close> of BuildItems). \<open>symb[0]\<close> panics on
  the empty symbol. A panic ends the construction.
\<close>

definition transition ::
  "(nat \<Rightarrow> nat list) \<Rightarrow> Item \<Rightarrow> State \<Rightarrow> string \<Rightarrow> panic + 'v Grammar \<times> State list
     \<Rightarrow> panic + 'v Grammar \<times> State list" where
  "transition rng acceptingItem state symb s =
     (case s of
        Inl p \<Rightarrow> Inl p
      | Inr (gr, queue) \<Rightarrow>
          (let items = closeItems rng (Rules gr) (goto_items state symb);
               key2 = State_String \<lparr>Items = items\<rparr>;
               state2 = State_sorted \<lparr>Items = items\<rparr>
           in if symb = [] then Inl (IndexOutOfRange ''symb[0]'')
              else
                (let gr1 = (if terminal_prefix symb
                            then gr\<lparr>actionTable := AList.update (State_String state, symb) (shiftAction key2) (actionTable gr)\<rparr>
                            else gr\<lparr>gotoTable := AList.update (State_String state, symb) (gotoAction key2) (gotoTable gr)\<rparr>)
                 in if map_of (states gr1) key2 = None
                    then Inr (gr1\<lparr>actionTable := fold (mark_accept acceptingItem key2) (Items state2) (actionTable gr1)\<rparr>,
                              queue @ [state2])
                    else Inr (gr1, queue))))"

text \<open>The body of the work-list loop: one state is taken from the front of the queue.\<close>

definition visit ::
  "(nat \<Rightarrow> nat list) \<Rightarrow> Item \<Rightarrow> panic + 'v Grammar \<times> State list \<Rightarrow> panic + 'v Grammar \<times> State list" where
  "visit rng acceptingItem s =
     (case s of
        Inl p \<Rightarrow> Inl p
      | Inr (gr, queue) \<Rightarrow>
          (case queue of
             [] \<Rightarrow> Inr (gr, queue)
           | state # rest \<Rightarrow>
               if map_of (states gr) (State_String state) = None
               then fold (transition rng acceptingItem (State_sorted state))
                      (range_order rng (next_symbols (State_sorted state)))
                      (Inr (gr\<lparr>states := AList.update (State_String state) (State_sorted state) (states gr)\<rparr>, rest))
               else Inr (gr, rest)))"

definition unfinished :: "panic + 'v Grammar \<times> State list \<Rightarrow> bool" where
  "unfinished s = (case s of Inl p \<Rightarrow> False | Inr (gr, queue) \<Rightarrow> queue \<noteq> [])"

text \<open>
  The first half of BuildItems, up to the end of the work-list loop. \<open>gr.Rules[0]\<close>
  panics when there is no rule. The loop is not known to end, so the result is an option.
\<close>

definition build_graph :: "(nat \<Rightarrow> nat list) \<Rightarrow> 'v Rule list \<Rightarrow> (panic + 'v Grammar \<times> State list) option" where
  "build_graph rng rules =
     (case rules of
        [] \<Rightarrow> Some (Inl (IndexOutOfRange ''gr.Rules[0]''))
      | rule # _ \<Rightarrow>
          (let acceptingItem = \<lparr>ItemLHS = LHS rule, ItemRHS = RHS rule, DotPos = length (RHS rule)\<rparr>;
               items = closeItems rng rules [\<lparr>ItemLHS = LHS rule, ItemRHS = RHS rule, DotPos = 0\<rparr>];
               state = State_sorted \<lparr>Items = items\<rparr>;
               gr = \<lparr>Rules = rules, states = [], initialState = State_String \<lparr>Items = items\<rparr>,
                     actionTable = [], gotoTable = []\<rparr>
           in while_option unfinished (visit rng acceptingItem) (Inr (gr, [state]))))"

text \<open>
  The second half: the set of the columns of the action table, and the loops that enter
  the reduce actions. A cell that holds a shift is left alone, a cell that holds anything
  else is a conflict and panics, an empty cell receives the reduce action.
\<close>

definition terminals_of :: "(nat \<Rightarrow> nat list) \<Rightarrow> (tableKey \<times> action) list \<Rightarrow> string list" where
  "terminals_of rng tbl =
     map fst (fold (\<lambda>key t. AList.update (snd key) () t) (range_order rng (map fst tbl)) [])"

definition fill_terminal ::
  "string \<Rightarrow> nat \<Rightarrow> string \<Rightarrow> panic + (tableKey \<times> action) list \<Rightarrow> panic + (tableKey \<times> action) list" where
  "fill_terminal row i terminal s =
     (case s of
        Inl p \<Rightarrow> Inl p
      | Inr tbl \<Rightarrow>
          (case map_of tbl (row, terminal) of
             Some prevAction \<Rightarrow>
               (case prevAction of
                  shiftAction q \<Rightarrow> Inr tbl
                | _ \<Rightarrow> Inl (Conflict terminal prevAction))
           | None \<Rightarrow> Inr (AList.update (row, terminal) (reduceAction i) tbl)))"

definition fill_item ::
  "(nat \<Rightarrow> nat list) \<Rightarrow> string list \<Rightarrow> State \<Rightarrow> nat \<Rightarrow> Item \<Rightarrow> Item
     \<Rightarrow> panic + (tableKey \<times> action) list \<Rightarrow> panic + (tableKey \<times> action) list" where
  "fill_item rng terminals state i it it2 s =
     (if Item_String it = Item_String it2
      then fold (fill_terminal (State_String state) i) (range_order rng terminals) s
      else s)"

definition fill_rule ::
  "(nat \<Rightarrow> nat list) \<Rightarrow> string list \<Rightarrow> State \<Rightarrow> nat \<times> 'v Rule
     \<Rightarrow> panic + (tableKey \<times> action) list \<Rightarrow> panic + (tableKey \<times> action) list" where
  "fill_rule rng terminals state ir s =
     (if 0 < fst ir
      then fold (fill_item rng terminals state (fst ir)
                   \<lparr>ItemLHS = LHS (snd ir), ItemRHS = RHS (snd ir), DotPos = length (RHS (snd ir))\<rparr>)
                (Items state) s
      else s)"

definition fill_state ::
  "(nat \<Rightarrow> nat list) \<Rightarrow> string list \<Rightarrow> 'v Rule list \<Rightarrow> State
     \<Rightarrow> panic + (tableKey \<times> action) list \<Rightarrow> panic + (tableKey \<times> action) list" where
  "fill_state rng terminals rules state s =
     fold (fill_rule rng terminals state) (enumerate 0 rules) s"

definition fill_reduces :: "(nat \<Rightarrow> nat list) \<Rightarrow> 'v Grammar \<Rightarrow> panic + (tableKey \<times> action) list" where
  "fill_reduces rng gr =
     fold (fill_state rng (terminals_of rng (actionTable gr)) (Rules gr))
       (range_order rng (map snd (states gr)))
       (Inr (actionTable gr))"

definition BuildItems :: "(nat \<Rightarrow> nat list) \<Rightarrow> 'v Rule list \<Rightarrow> (panic + 'v Grammar) option" where
  "BuildItems rng rules =
     (case build_graph rng rules of
        None \<Rightarrow> None
      | Some (Inl p) \<Rightarrow> Some (Inl p)
      | Some (Inr (gr, queue)) \<Rightarrow>
          (case fill_reduces rng gr of
             Inl p \<Rightarrow> Some (Inl p)
           | Inr tbl \<Rightarrow> Some (Inr (gr\<lparr>actionTable := tbl\<rparr>))))"

definition NewGrammar :: "(nat \<Rightarrow> nat list) \<Rightarrow> 'v Rule list list \<Rightarrow> (panic + 'v Grammar) option" where
  "NewGrammar rng rules = BuildItems rng (concat rules)"

section \<open>Parse\<close>

text \<open>
  The interface Located. Which values implement it is decided by their Go types, which
  the model does not have, so the three operations are parameters of Parse. How a location
  prints under \<open>%s\<close> is textkit's business and a parameter \<open>fmtLoc\<close> as well.
\<close>

record 'a Located =
  implements :: "'a val \<Rightarrow> bool"
  Location :: "'a val \<Rightarrow> Location"
  SetLocation :: "'a val \<Rightarrow> Location \<Rightarrow> 'a val"

text \<open>The set \<open>keywords\<close>: \<open>key.column[0]\<close> panics on an empty column.\<close>

fun keywords_loop :: "tableKey list \<Rightarrow> (string \<times> unit) list \<Rightarrow> panic + (string \<times> unit) list" where
  "keywords_loop [] keywords = Inr keywords"
| "keywords_loop (key # keys) keywords =
     (if snd key = [] then Inl (IndexOutOfRange ''key.column[0]'')
      else if hd (snd key) = CHR ''&''
      then keywords_loop keys (AList.update (tl (snd key)) () keywords)
      else keywords_loop keys keywords)"

definition keywords_of :: "(nat \<Rightarrow> nat list) \<Rightarrow> (tableKey \<times> action) list \<Rightarrow> panic + string list" where
  "keywords_of rng tbl =
     (case keywords_loop (range_order rng (map fst tbl)) [] of
        Inl p \<Rightarrow> Inl p
      | Inr keywords \<Rightarrow> Inr (map fst keywords))"

text \<open>The switch on the type of the front token.\<close>

definition symbol_of :: "string list \<Rightarrow> Token \<Rightarrow> string" where
  "symbol_of keywords token =
     (case Type token of
        Symbol \<Rightarrow> ''&'' @ Form token
      | Number \<Rightarrow> ''_NUM''
      | String \<Rightarrow> ''_STR''
      | EOF \<Rightarrow> ''_EOF''
      | EOL \<Rightarrow> ''_EOL''
      | Word \<Rightarrow> if Form token \<in> set keywords then ''&'' @ Form token else ''_ID'')"

text \<open>
  The location given to the result of a fold: that of the first argument that is a token
  or a located value.
\<close>

fun first_location :: "'a Located \<Rightarrow> 'a val list \<Rightarrow> Location option" where
  "first_location L [] = None"
| "first_location L (el # els) =
     (case el of
        TokenVal x \<Rightarrow> Some (Loc x)
      | Val a \<Rightarrow> if implements L el then Some (Location L el) else first_location L els)"

definition setloc :: "'a Located \<Rightarrow> 'a val \<Rightarrow> 'a val list \<Rightarrow> 'a val" where
  "setloc L r results =
     (if implements L r
      then (case first_location L results of Some loc \<Rightarrow> SetLocation L r loc | None \<Rightarrow> r)
      else r)"

text \<open>
  The default branch of the switch on the action: the terminals for which the current
  state has an entry, as they are printed, and the error built from them.
  \<open>terminal[0]\<close> panics on the empty terminal.
\<close>

definition render :: "string \<Rightarrow> string" where
  "render terminal =
     (let symbol = terminal;
          symbol = (if hd terminal = CHR ''&'' then [CHR 0x27] @ tl terminal @ [CHR 0x27] else symbol);
          symbol = (if terminal = ''_ID'' then ''identifier'' else symbol);
          symbol = (if terminal = ''_STR'' then ''string'' else symbol);
          symbol = (if terminal = ''_NUM'' then ''number'' else symbol);
          symbol = (if terminal = ''_EOF'' then ''EOF'' else symbol);
          symbol = (if terminal = ''_EOL'' then ''EOL'' else symbol)
      in symbol)"

fun expected_loop ::
  "(tableKey \<times> action) list \<Rightarrow> string \<Rightarrow> string list \<Rightarrow> string list \<Rightarrow> panic + string list" where
  "expected_loop tbl currentState [] expected = Inr expected"
| "expected_loop tbl currentState (terminal # ts) expected =
     (if map_of tbl (currentState, terminal) \<noteq> None
      then (if terminal = [] then Inl (IndexOutOfRange ''terminal[0]'')
            else expected_loop tbl currentState ts (expected @ [render terminal]))
      else expected_loop tbl currentState ts expected)"

datatype 'a outcome = Returned "'a val" | Failed string | Panicked panic

definition error_of :: "(Location \<Rightarrow> string) \<Rightarrow> Token \<Rightarrow> string list \<Rightarrow> 'a outcome" where
  "error_of fmtLoc token expected =
     (if length expected > 1
      then Failed (''expected one of '' @ Join expected '', '' @ '' at line '' @ fmtLoc (Loc token))
      else if length expected > 0
      then Failed (''expected '' @ expected ! 0 @ '' at line '' @ fmtLoc (Loc token))
      else Failed ''no expected symbol'')"

definition no_action ::
  "(nat \<Rightarrow> nat list) \<Rightarrow> (Location \<Rightarrow> string) \<Rightarrow> (tableKey \<times> action) list \<Rightarrow> string list
     \<Rightarrow> string \<Rightarrow> Token \<Rightarrow> 'a outcome" where
  "no_action rng fmtLoc tbl terminals currentState token =
     (case expected_loop tbl currentState (range_order rng terminals) [] of
        Inl p \<Rightarrow> Panicked p
      | Inr expected \<Rightarrow> error_of fmtLoc token expected)"

text \<open>
  One pass of the loop of Parse, on the remaining tokens and the two stacks. Every index
  and slice expression of the source that can fail is a branch.
\<close>

type_synonym 'a config = "Token list \<times> string list \<times> 'a val list"

datatype 'a step = Continue "'a config" | Stop "'a outcome"

definition reduce ::
  "'a Located \<Rightarrow> 'a val Grammar \<Rightarrow> nat \<Rightarrow> 'a config \<Rightarrow> 'a step" where
  "reduce L gr i cfg =
     (case cfg of (tokens, stateStack, resultStack) \<Rightarrow>
        if length (Rules gr) \<le> i then Stop (Panicked (IndexOutOfRange ''gr.Rules[action.rule]''))
        else
          (let rule = Rules gr ! i; n = length (RHS rule) in
           if length resultStack < n then Stop (Panicked (SliceBoundsOutOfRange ''resultStack[len(resultStack)-len(rule.RHS):]''))
           else if length stateStack < n then Stop (Panicked (SliceBoundsOutOfRange ''stateStack[:len(stateStack)-len(rule.RHS)]''))
           else
             (let results = drop (length resultStack - n) resultStack;
                  resultStack1 = take (length resultStack - n) resultStack;
                  stateStack1 = take (length stateStack - n) stateStack
              in case Conv rule results of
                   Inl p \<Rightarrow> Stop (Panicked p)
                 | Inr r \<Rightarrow>
                     (let resultStack2 = resultStack1 @ [setloc L r results] in
                      if stateStack1 = [] then Stop (Panicked (IndexOutOfRange ''stateStack[len(stateStack)-1]''))
                      else
                        (case map_of (gotoTable gr) (last stateStack1, LHS rule) of
                           Some nextState \<Rightarrow>
                             (case nextState of
                                gotoAction st \<Rightarrow> Continue (tokens, stateStack1 @ [st], resultStack2)
                              | _ \<Rightarrow> Stop (Panicked TypeAssertionFailed))
                         | None \<Rightarrow> Stop (Panicked CantReduce))))))"

definition Parse_step ::
  "(nat \<Rightarrow> nat list) \<Rightarrow> (Location \<Rightarrow> string) \<Rightarrow> 'a Located \<Rightarrow> 'a val Grammar \<Rightarrow> string list \<Rightarrow> string list
     \<Rightarrow> 'a config \<Rightarrow> 'a step" where
  "Parse_step rng fmtLoc L gr terminals keywords cfg =
     (case cfg of (tokens, stateStack, resultStack) \<Rightarrow>
        (case tokens of
           [] \<Rightarrow> Stop (Panicked (IndexOutOfRange ''tokens[0]''))
         | token # rest \<Rightarrow>
             if stateStack = [] then Stop (Panicked (IndexOutOfRange ''stateStack[len(stateStack)-1]''))
             else
               (let symb = symbol_of keywords token;
                    currentState = last stateStack
                in case map_of (actionTable gr) (currentState, symb) of
                     Some (shiftAction st) \<Rightarrow> Continue (rest, stateStack @ [st], resultStack @ [TokenVal token])
                   | Some (reduceAction i) \<Rightarrow> reduce L gr i cfg
                   | Some acceptAction \<Rightarrow>
                       (case resultStack of
                          [] \<Rightarrow> Stop (Panicked (IndexOutOfRange ''resultStack[0]''))
                        | r # _ \<Rightarrow> Stop (Returned r))
                   | _ \<Rightarrow> Stop (no_action rng fmtLoc (actionTable gr) terminals currentState token))))"

text \<open>
  The loop of Parse. It can run for ever, so the result is an option; with the outcome it
  gives the configuration in which the loop was left.
\<close>

partial_function (option) Parse_loop ::
  "(nat \<Rightarrow> nat list) \<Rightarrow> (Location \<Rightarrow> string) \<Rightarrow> 'a Located \<Rightarrow> 'a val Grammar \<Rightarrow> string list \<Rightarrow> string list
     \<Rightarrow> 'a config \<Rightarrow> ('a outcome \<times> 'a config) option" where
  "Parse_loop rng fmtLoc L gr terminals keywords cfg =
     (case Parse_step rng fmtLoc L gr terminals keywords cfg of
        Stop out \<Rightarrow> Some (out, cfg)
      | Continue cfg' \<Rightarrow> Parse_loop rng fmtLoc L gr terminals keywords cfg')"

definition Parse_run ::
  "(nat \<Rightarrow> nat list) \<Rightarrow> (Location \<Rightarrow> string) \<Rightarrow> 'a Located \<Rightarrow> 'a val Grammar \<Rightarrow> Token list
     \<Rightarrow> ('a outcome \<times> 'a config) option" where
  "Parse_run rng fmtLoc L gr tokens =
     (case keywords_of rng (actionTable gr) of
        Inl p \<Rightarrow> Some (Panicked p, (tokens, [initialState gr], []))
      | Inr keywords \<Rightarrow>
          Parse_loop rng fmtLoc L gr (terminals_of rng (actionTable gr)) keywords
            (tokens, [initialState gr], []))"

definition Parse ::
  "(nat \<Rightarrow> nat list) \<Rightarrow> (Location \<Rightarrow> string) \<Rightarrow> 'a Located \<Rightarrow> 'a val Grammar \<Rightarrow> Token list
     \<Rightarrow> 'a outcome option" where
  "Parse rng fmtLoc L gr tokens = map_option fst (Parse_run rng fmtLoc L gr tokens)"

section \<open>BuildOperatorRules\<close>

datatype OperatorAssociativity = LeftAssociative | RightAssociative | NonAssociative

record Operator =
  Associativity :: OperatorAssociativity
  Priority :: int
  Symbols :: "string list"

text \<open>Operator.Name: \<open>sym[1:]\<close> panics on the empty symbol.\<close>

fun Name_loop :: "string \<Rightarrow> string list \<Rightarrow> panic + string" where
  "Name_loop str [] = Inr str"
| "Name_loop str (symb # symbs) =
     (if symb = [] then Inl (SliceBoundsOutOfRange ''sym[1:]'')
      else Name_loop (str @ drop 1 symb) symbs)"

definition Operator_Name :: "Operator \<Rightarrow> panic + string" where
  "Operator_Name op = Name_loop [] (Symbols op)"

text \<open>The verb \<open>%d\<close> of fmt.Sprintf, and the name \<open>rootOp{p}\<close> of a level.\<close>

function show_nat :: "nat \<Rightarrow> string" where
  "show_nat n = (if n < 10 then [''0123456789'' ! n] else show_nat (n div 10) @ [''0123456789'' ! (n mod 10)])"
  by pat_completeness auto
termination
  by (relation "measure id") auto

declare show_nat.simps [simp del]

definition show_int :: "int \<Rightarrow> string" where
  "show_int i = (if i < 0 then ''-'' @ show_nat (nat (- i)) else show_nat (nat i))"

definition level_name :: "string \<Rightarrow> int \<Rightarrow> string" where
  "level_name root prio = root @ ''Op'' @ show_int prio"

text \<open>
  The call \<open>sort.Slice(prios, func(i, j int) bool { return i < j })\<close>. The function it is
  given compares the two indices and never reads the slice, so what the call does
  depends on the algorithm. sort.Slice is the standard library's; on a slice of at most
  twelve elements it runs the insertion sort below, with the given function as \<open>lessf\<close> and
  the exchange of two elements as \<open>swap\<close>.
\<close>

definition swap :: "nat \<Rightarrow> nat \<Rightarrow> 'a list \<Rightarrow> 'a list" where
  "swap i j xs = xs[i := xs ! j, j := xs ! i]"

fun insert_down :: "(nat \<Rightarrow> nat \<Rightarrow> bool) \<Rightarrow> nat \<Rightarrow> 'a list \<Rightarrow> 'a list" where
  "insert_down lessf 0 xs = xs"
| "insert_down lessf (Suc j) xs =
     (if lessf (Suc j) j then insert_down lessf j (swap (Suc j) j xs) else xs)"

definition sort_Slice :: "(nat \<Rightarrow> nat \<Rightarrow> bool) \<Rightarrow> 'a list \<Rightarrow> 'a list" where
  "sort_Slice lessf xs = fold (insert_down lessf) [1..<length xs] xs"

text \<open>The map \<open>opMap\<close> from a priority to its operators, in the order of the list.\<close>

definition opMap_of :: "Operator list \<Rightarrow> (int \<times> Operator list) list" where
  "opMap_of ops =
     fold (\<lambda>op m. AList.update (Priority op) (lookup_list (map_of m) (Priority op) @ [op]) m) ops []"

definition prios_of :: "(nat \<Rightarrow> nat list) \<Rightarrow> Operator list \<Rightarrow> int list" where
  "prios_of rng ops = sort_Slice (\<lambda>i j. i < j) (range_order rng (map fst (opMap_of ops)))"

text \<open>The folds of the rules: the threading fold returns \<open>r[0]\<close>.\<close>

definition first_arg :: "'v list \<Rightarrow> panic + 'v" where
  "first_arg r = (case r of [] \<Rightarrow> Inl (IndexOutOfRange ''r[0]'') | x # xs \<Rightarrow> Inr x)"

text \<open>
  The fold of a binary rule is the closure
  \<open>func(r) { return builder(op.Name(), r[0], r[len(r)-1]) }\<close>, made inside the loop
  \<open>for _, op := range opMap[prio]\<close>. It reads the variable \<open>op\<close> when it is called, which
  is during a parse, after the loop has ended. In the Go of the years the file is dated
  (2018 to 2020), and in every module that declares a language version below 1.22, the
  loop has one variable \<open>op\<close> for all its passes: all closures of a level share it, and
  after the loop it holds the last operator of the level. From Go 1.22 on, a module that
  declares that version gets a fresh variable in every pass. The repository's files do not
  say which version the module declares; the parameter \<open>per_pass\<close> of the model is True
  for a fresh variable in every pass and False for the one shared variable.
\<close>

definition binary_fold :: "(string \<Rightarrow> 'v \<Rightarrow> 'v \<Rightarrow> 'v) \<Rightarrow> Operator \<Rightarrow> 'v list \<Rightarrow> panic + 'v" where
  "binary_fold builder op r =
     (case Operator_Name op of
        Inl p \<Rightarrow> Inl p
      | Inr name \<Rightarrow>
          if r = [] then Inl (IndexOutOfRange ''r[0]'')
          else Inr (builder name (r ! 0) (r ! (length r - 1))))"

definition op_rules ::
  "(string \<Rightarrow> 'v \<Rightarrow> 'v \<Rightarrow> 'v) \<Rightarrow> string \<Rightarrow> string \<Rightarrow> bool \<Rightarrow> Operator \<Rightarrow> Operator \<Rightarrow> 'v Rule list" where
  "op_rules builder sym1 sym2 per_pass last_op op =
     (let symbols = [if Associativity op = LeftAssociative then sym1 else sym2]
                    @ Symbols op
                    @ [if Associativity op = RightAssociative then sym1 else sym2]
      in [\<lparr>LHS = sym1, RHS = symbols, Conv = binary_fold builder (if per_pass then op else last_op)\<rparr>,
          \<lparr>LHS = sym1, RHS = [sym2], Conv = first_arg\<rparr>])"

definition level_rules ::
  "string \<Rightarrow> string \<Rightarrow> (string \<Rightarrow> 'v \<Rightarrow> 'v \<Rightarrow> 'v) \<Rightarrow> bool \<Rightarrow> (int \<times> Operator list) list \<Rightarrow> int list
     \<Rightarrow> nat \<Rightarrow> 'v Rule list" where
  "level_rules root leaf builder per_pass opMap prios i =
     (let prio = prios ! i;
          sym1 = level_name root prio;
          sym2 = (if i + 1 = length prios then leaf else level_name root (prios ! (i + 1)));
          ops = lookup_list (map_of opMap) prio
      in concat (map (op_rules builder sym1 sym2 per_pass (last ops)) ops))"

text \<open>\<open>prios[0]\<close> panics when the list of operators is empty.\<close>

definition BuildOperatorRules ::
  "(nat \<Rightarrow> nat list) \<Rightarrow> bool \<Rightarrow> string \<Rightarrow> string \<Rightarrow> Operator list \<Rightarrow> (string \<Rightarrow> 'v \<Rightarrow> 'v \<Rightarrow> 'v)
     \<Rightarrow> panic + 'v Rule list" where
  "BuildOperatorRules rng per_pass root leaf ops builder =
     (let opMap = opMap_of ops;
          prios = prios_of rng ops
      in if prios = [] then Inl (IndexOutOfRange ''prios[0]'')
         else Inr (\<lparr>LHS = root, RHS = [level_name root (prios ! 0)], Conv = first_arg\<rparr>
                   # concat (map (level_rules root leaf builder per_pass opMap prios) [0..<length prios])))"

section \<open>Notions used in the statements\<close>

text \<open>
  A table \<open>tbl'\<close> fills a table \<open>tbl\<close> within the columns \<open>C\<close> when it keeps every
  entry of \<open>tbl\<close> and every entry it adds is a reduce action in a column of \<open>C\<close>.
\<close>

definition fills :: "string set \<Rightarrow> (tableKey \<times> action) list \<Rightarrow> (tableKey \<times> action) list \<Rightarrow> bool" where
  "fills C tbl tbl' \<longleftrightarrow>
     (\<forall>k a. map_of tbl k = Some a \<longrightarrow> map_of tbl' k = Some a) \<and>
     (\<forall>k a. map_of tbl' k = Some a \<longrightarrow>
        map_of tbl k = Some a \<or> (map_of tbl k = None \<and> (\<exists>i. a = reduceAction i) \<and> snd k \<in> C))"

text \<open>The columns of a table, and the item of a rule with the dot at its end.\<close>

definition columns :: "(tableKey \<times> action) list \<Rightarrow> string set" where
  "columns tbl = snd ` fst ` set tbl"

definition completed :: "'v Rule \<Rightarrow> Item" where
  "completed rule = \<lparr>ItemLHS = LHS rule, ItemRHS = RHS rule, DotPos = length (RHS rule)\<rparr>"

definition is_shift :: "action \<Rightarrow> bool" where
  "is_shift a = (case a of shiftAction q \<Rightarrow> True | _ \<Rightarrow> False)"

text \<open>The panic of a conflict: a cell that was to receive a reduce action held \<open>a\<close>, not a shift.\<close>

definition is_conflict :: "panic \<Rightarrow> bool" where
  "is_conflict p = (case p of Conflict t a \<Rightarrow> \<not> is_shift a | _ \<Rightarrow> False)"

text \<open>
  What the work-list loop of BuildItems maintains: the action table holds shift and accept
  actions in columns with a terminal prefix, a shift only in a column that is a symbol of
  a rule; the goto table has columns without the prefix; a state is stored under its own
  string; and the items of every state come from the rules.
\<close>

definition items_from :: "'v Rule list \<Rightarrow> Item list \<Rightarrow> bool" where
  "items_from rules its \<longleftrightarrow> (\<forall>it \<in> set its. ItemRHS it \<in> RHS ` set rules)"

definition graph_inv :: "'v Rule list \<Rightarrow> panic + 'v Grammar \<times> State list \<Rightarrow> bool" where
  "graph_inv rules s =
     (case s of
        Inl p \<Rightarrow> True
      | Inr (gr, queue) \<Rightarrow>
          Rules gr = rules \<and>
          (\<forall>k a. map_of (actionTable gr) k = Some a \<longrightarrow>
             snd k \<noteq> [] \<and> terminal_prefix (snd k) \<and>
             (a = acceptAction \<or> (is_shift a \<and> snd k \<in> \<Union> (set ` RHS ` set rules)))) \<and>
          (\<forall>k a. map_of (gotoTable gr) k = Some a \<longrightarrow> snd k \<noteq> [] \<and> \<not> terminal_prefix (snd k)) \<and>
          (\<forall>k st. map_of (states gr) k = Some st \<longrightarrow> k = State_String st \<and> items_from rules (Items st)) \<and>
          (\<forall>st \<in> set queue. items_from rules (Items st)))"

text \<open>
  The row \<open>k\<close> of the action table has a shift for every terminal of \<open>X\<close> that stands
  after the dot of an item of \<open>st\<close>.
\<close>

definition has_shifts :: "'v Grammar \<Rightarrow> string \<Rightarrow> State \<Rightarrow> string set \<Rightarrow> bool" where
  "has_shifts gr k st X \<longleftrightarrow>
     (\<forall>it \<in> set (Items st).
        DotPos it < length (ItemRHS it) \<longrightarrow> terminal_prefix (ItemRHS it ! DotPos it) \<longrightarrow>
        ItemRHS it ! DotPos it \<in> X \<longrightarrow>
        (\<exists>q. map_of (actionTable gr) (k, ItemRHS it ! DotPos it) = Some (shiftAction q)))"

definition shifts_inv :: "panic + 'v Grammar \<times> State list \<Rightarrow> bool" where
  "shifts_inv s =
     (case s of
        Inl p \<Rightarrow> True
      | Inr (gr, queue) \<Rightarrow> (\<forall>k st. map_of (states gr) k = Some st \<longrightarrow> has_shifts gr k st UNIV))"

text \<open>
  The same while the state \<open>s0\<close>, stored under \<open>k0\<close>, is being visited: the rows of
  the other states are complete, and the row \<open>k0\<close> has the shifts of the symbols \<open>X\<close>
  done so far.
\<close>

definition shifts_mid :: "string \<Rightarrow> State \<Rightarrow> string set \<Rightarrow> panic + 'v Grammar \<times> State list \<Rightarrow> bool" where
  "shifts_mid k0 s0 X s =
     (case s of
        Inl p \<Rightarrow> True
      | Inr (gr, queue) \<Rightarrow>
          map_of (states gr) k0 = Some s0 \<and>
          (\<forall>k st. map_of (states gr) k = Some st \<longrightarrow> k \<noteq> k0 \<longrightarrow> has_shifts gr k st UNIV) \<and>
          has_shifts gr k0 s0 X)"

section \<open>Example inputs\<close>

text \<open>A token of the first line, with a tag, at a given column.\<close>

definition tk :: "TokenType \<Rightarrow> string \<Rightarrow> int \<Rightarrow> Token" where
  "tk ty f col = \<lparr>Type = ty, Form = f, Loc = \<lparr>Line = 1, Column = col\<rparr>, Tag = ''x''\<rparr>"

section \<open>Notions used in the statements about Parse\<close>

text \<open>
  The configuration in which the pass number \<open>n\<close> of the loop of Parse starts, when the
  loop gets that far.
\<close>

fun Parse_configs ::
  "(nat \<Rightarrow> nat list) \<Rightarrow> (Location \<Rightarrow> string) \<Rightarrow> 'a Located \<Rightarrow> 'a val Grammar \<Rightarrow> string list \<Rightarrow> string list
     \<Rightarrow> nat \<Rightarrow> 'a config \<Rightarrow> 'a config option" where
  "Parse_configs rng fmtLoc L gr terminals keywords 0 cfg = Some cfg"
| "Parse_configs rng fmtLoc L gr terminals keywords (Suc n) cfg =
     (case Parse_step rng fmtLoc L gr terminals keywords cfg of
        Continue cfg' \<Rightarrow> Parse_configs rng fmtLoc L gr terminals keywords n cfg'
      | Stop out \<Rightarrow> None)"

text \<open>The text of the error for a list of expected symbols, by the length of the list.\<close>

definition error_text :: "(Location \<Rightarrow> string) \<Rightarrow> Token \<Rightarrow> string list \<Rightarrow> string" where
  "error_text fmtLoc token expected =
     (case expected of
        [] \<Rightarrow> ''no expected symbol''
      | [s] \<Rightarrow> ''expected '' @ s @ '' at line '' @ fmtLoc (Loc token)
      | s # s' # ss \<Rightarrow> ''expected one of '' @ Join expected '', '' @ '' at line '' @ fmtLoc (Loc token))"

text \<open>
  What the example program of the repository does: it builds the grammar with NewGrammar and
  parses with it. A panic of the construction is the outcome.
\<close>

definition NewGrammar_Parse ::
  "(nat \<Rightarrow> nat list) \<Rightarrow> (Location \<Rightarrow> string) \<Rightarrow> 'a Located \<Rightarrow> 'a val Rule list list \<Rightarrow> Token list
     \<Rightarrow> ('a outcome \<times> 'a config) option" where
  "NewGrammar_Parse rng fmtLoc L rules tokens =
     (case NewGrammar rng rules of
        None \<Rightarrow> None
      | Some (Inl p) \<Rightarrow> Some (Panicked p, (tokens, [], []))
      | Some (Inr gr) \<Rightarrow> Parse_run rng fmtLoc L gr tokens)"

text \<open>The tables, the states and the initial state of a grammar that was built.\<close>

definition tables_of ::
  "(panic + 'v Grammar) option
     \<Rightarrow> (panic + string \<times> (tableKey \<times> action) list \<times> (tableKey \<times> action) list \<times> (string \<times> State) list) option" where
  "tables_of r = map_option (map_sum id (\<lambda>g. (initialState g, actionTable g, gotoTable g, states g))) r"

text \<open>
  No value is located, and a location prints as line and column.
\<close>

definition noloc :: "unit Located" where
  "noloc = \<lparr>implements = (\<lambda>v. False), Location = (\<lambda>v. \<lparr>Line = 0, Column = 0\<rparr>), SetLocation = (\<lambda>v l. v)\<rparr>"

definition fmt_line_col :: "Location \<Rightarrow> string" where
  "fmt_line_col l = show_int (Line l) @ '':'' @ show_int (Column l)"

text \<open>
  A grammar in the manner of the example program: \<open>Init -> Expr\<close>,
  \<open>Expr -> "expr" E\<close>, \<open>E -> number\<close>, \<open>E -> number "+" E\<close>. Every fold returns its first
  argument.
\<close>

definition example_rules :: "unit val Rule list" where
  "example_rules =
     [\<lparr>LHS = ''Init'', RHS = [''Expr''], Conv = first_arg\<rparr>,
      \<lparr>LHS = ''Expr'', RHS = [''&expr'', ''E''], Conv = first_arg\<rparr>,
      \<lparr>LHS = ''E'', RHS = [''_NUM''], Conv = first_arg\<rparr>,
      \<lparr>LHS = ''E'', RHS = [''_NUM'', ''&+'', ''E''], Conv = first_arg\<rparr>]"

text \<open>A grammar whose start rule has two symbols on its right-hand side.\<close>

definition pair_rules :: "unit val Rule list" where
  "pair_rules = [\<lparr>LHS = ''Init'', RHS = [''_NUM'', ''_NUM''], Conv = first_arg\<rparr>]"

text \<open>The value that the older BuildOperatorRules of the repository builds for a binary rule.\<close>

datatype expr = Leaf string | BinaryOperator string expr expr

text \<open>A rule as it is written, with what its fold returns for given arguments.\<close>

definition describe :: "'v list \<Rightarrow> 'v Rule \<Rightarrow> string \<times> string list \<times> (panic + 'v)" where
  "describe args rule = (LHS rule, RHS rule, Conv rule args)"

text \<open>The grammars that BuildItems builds from the two lists of rules, written out.\<close>

definition example_grammar :: "unit val Grammar" where
  "example_grammar =
     \<lparr>Rules = example_rules,
      states =
        [(''Expr -> *&expr E; Init -> *Expr;'',
          \<lparr>Items = [\<lparr>ItemLHS = ''Expr'', ItemRHS = [''&expr'', ''E''], DotPos = 0\<rparr>,
                     \<lparr>ItemLHS = ''Init'', ItemRHS = [''Expr''], DotPos = 0\<rparr>]\<rparr>),
         (''E -> *_NUM &+ E; E -> *_NUM; Expr -> &expr *E;'',
          \<lparr>Items = [\<lparr>ItemLHS = ''E'', ItemRHS = [''_NUM'', ''&+'', ''E''], DotPos = 0\<rparr>,
                     \<lparr>ItemLHS = ''E'', ItemRHS = [''_NUM''], DotPos = 0\<rparr>,
                     \<lparr>ItemLHS = ''Expr'', ItemRHS = [''&expr'', ''E''], DotPos = 1\<rparr>]\<rparr>),
         (''Init -> Expr*;'',
          \<lparr>Items = [\<lparr>ItemLHS = ''Init'', ItemRHS = [''Expr''], DotPos = 1\<rparr>]\<rparr>),
         (''E -> _NUM *&+ E; E -> _NUM*;'',
          \<lparr>Items = [\<lparr>ItemLHS = ''E'', ItemRHS = [''_NUM'', ''&+'', ''E''], DotPos = 1\<rparr>,
                     \<lparr>ItemLHS = ''E'', ItemRHS = [''_NUM''], DotPos = 1\<rparr>]\<rparr>),
         (''Expr -> &expr E*;'',
          \<lparr>Items = [\<lparr>ItemLHS = ''Expr'', ItemRHS = [''&expr'', ''E''], DotPos = 2\<rparr>]\<rparr>),
         (''E -> *_NUM &+ E; E -> *_NUM; E -> _NUM &+ *E;'',
          \<lparr>Items = [\<lparr>ItemLHS = ''E'', ItemRHS = [''_NUM'', ''&+'', ''E''], DotPos = 0\<rparr>,
                     \<lparr>ItemLHS = ''E'', ItemRHS = [''_NUM''], DotPos = 0\<rparr>,
                     \<lparr>ItemLHS = ''E'', ItemRHS = [''_NUM'', ''&+'', ''E''], DotPos = 2\<rparr>]\<rparr>),
         (''E -> _NUM &+ E*;'',
          \<lparr>Items = [\<lparr>ItemLHS = ''E'', ItemRHS = [''_NUM'', ''&+'', ''E''], DotPos = 3\<rparr>]\<rparr>)],
      initialState = ''Expr -> *&expr E; Init -> *Expr;'',
      actionTable =
        [((''Expr -> *&expr E; Init -> *Expr;'', ''&expr''),
          shiftAction ''E -> *_NUM &+ E; E -> *_NUM; Expr -> &expr *E;''),
         ((''Init -> Expr*;'', ''_EOF''), acceptAction),
         ((''E -> *_NUM &+ E; E -> *_NUM; Expr -> &expr *E;'', ''_NUM''),
          shiftAction ''E -> _NUM *&+ E; E -> _NUM*;''),
         ((''E -> _NUM *&+ E; E -> _NUM*;'', ''&+''),
          shiftAction ''E -> *_NUM &+ E; E -> *_NUM; E -> _NUM &+ *E;''),
         ((''E -> *_NUM &+ E; E -> *_NUM; E -> _NUM &+ *E;'', ''_NUM''),
          shiftAction ''E -> _NUM *&+ E; E -> _NUM*;''),
         ((''E -> _NUM *&+ E; E -> _NUM*;'', ''&expr''), reduceAction 2),
         ((''E -> _NUM *&+ E; E -> _NUM*;'', ''_EOF''), reduceAction 2),
         ((''E -> _NUM *&+ E; E -> _NUM*;'', ''_NUM''), reduceAction 2),
         ((''Expr -> &expr E*;'', ''&expr''), reduceAction 1),
         ((''Expr -> &expr E*;'', ''_EOF''), reduceAction 1),
         ((''Expr -> &expr E*;'', ''_NUM''), reduceAction 1),
         ((''Expr -> &expr E*;'', ''&+''), reduceAction 1),
         ((''E -> _NUM &+ E*;'', ''&expr''), reduceAction 3),
         ((''E -> _NUM &+ E*;'', ''_EOF''), reduceAction 3),
         ((''E -> _NUM &+ E*;'', ''_NUM''), reduceAction 3),
         ((''E -> _NUM &+ E*;'', ''&+''), reduceAction 3)],
      gotoTable =
        [((''Expr -> *&expr E; Init -> *Expr;'', ''Expr''), gotoAction ''Init -> Expr*;''),
         ((''E -> *_NUM &+ E; E -> *_NUM; Expr -> &expr *E;'', ''E''), gotoAction ''Expr -> &expr E*;''),
         ((''E -> *_NUM &+ E; E -> *_NUM; E -> _NUM &+ *E;'', ''E''), gotoAction ''E -> _NUM &+ E*;'')]\<rparr>"

definition pair_grammar :: "unit val Grammar" where
  "pair_grammar =
     \<lparr>Rules = pair_rules,
      states =
        [(''Init -> *_NUM _NUM;'',
          \<lparr>Items = [\<lparr>ItemLHS = ''Init'', ItemRHS = [''_NUM'', ''_NUM''], DotPos = 0\<rparr>]\<rparr>),
         (''Init -> _NUM *_NUM;'',
          \<lparr>Items = [\<lparr>ItemLHS = ''Init'', ItemRHS = [''_NUM'', ''_NUM''], DotPos = 1\<rparr>]\<rparr>),
         (''Init -> _NUM _NUM*;'',
          \<lparr>Items = [\<lparr>ItemLHS = ''Init'', ItemRHS = [''_NUM'', ''_NUM''], DotPos = 2\<rparr>]\<rparr>)],
      initialState = ''Init -> *_NUM _NUM;'',
      actionTable =
        [((''Init -> *_NUM _NUM;'', ''_NUM''), shiftAction ''Init -> _NUM *_NUM;''),
         ((''Init -> _NUM *_NUM;'', ''_NUM''), shiftAction ''Init -> _NUM _NUM*;''),
         ((''Init -> _NUM _NUM*;'', ''_EOF''), acceptAction)],
      gotoTable = []\<rparr>"

text \<open>
  A grammar with a reduce/reduce conflict, \<open>Init -> S\<close>, \<open>S -> number\<close>, \<open>S -> A\<close>,
  \<open>A -> number\<close>, and what the work-list loop of BuildItems has built for it when it ends.
\<close>

definition conflict_rules :: "unit val Rule list" where
  "conflict_rules =
     [\<lparr>LHS = ''Init'', RHS = [''S''], Conv = first_arg\<rparr>,
      \<lparr>LHS = ''S'', RHS = [''_NUM''], Conv = first_arg\<rparr>,
      \<lparr>LHS = ''S'', RHS = [''A''], Conv = first_arg\<rparr>,
      \<lparr>LHS = ''A'', RHS = [''_NUM''], Conv = first_arg\<rparr>]"

definition conflict_graph :: "unit val Grammar" where
  "conflict_graph =
     \<lparr>Rules = conflict_rules,
      states =
        [(''A -> *_NUM; Init -> *S; S -> *A; S -> *_NUM;'',
          \<lparr>Items = [\<lparr>ItemLHS = ''A'', ItemRHS = [''_NUM''], DotPos = 0\<rparr>,
                     \<lparr>ItemLHS = ''Init'', ItemRHS = [''S''], DotPos = 0\<rparr>,
                     \<lparr>ItemLHS = ''S'', ItemRHS = [''A''], DotPos = 0\<rparr>,
                     \<lparr>ItemLHS = ''S'', ItemRHS = [''_NUM''], DotPos = 0\<rparr>]\<rparr>),
         (''A -> _NUM*; S -> _NUM*;'',
          \<lparr>Items = [\<lparr>ItemLHS = ''A'', ItemRHS = [''_NUM''], DotPos = 1\<rparr>,
                     \<lparr>ItemLHS = ''S'', ItemRHS = [''_NUM''], DotPos = 1\<rparr>]\<rparr>),
         (''Init -> S*;'',
          \<lparr>Items = [\<lparr>ItemLHS = ''Init'', ItemRHS = [''S''], DotPos = 1\<rparr>]\<rparr>),
         (''S -> A*;'',
          \<lparr>Items = [\<lparr>ItemLHS = ''S'', ItemRHS = [''A''], DotPos = 1\<rparr>]\<rparr>)],
      initialState = ''A -> *_NUM; Init -> *S; S -> *A; S -> *_NUM;'',
      actionTable =
        [((''A -> *_NUM; Init -> *S; S -> *A; S -> *_NUM;'', ''_NUM''),
          shiftAction ''A -> _NUM*; S -> _NUM*;''),
         ((''Init -> S*;'', ''_EOF''), acceptAction)],
      gotoTable =
        [((''A -> *_NUM; Init -> *S; S -> *A; S -> *_NUM;'', ''S''), gotoAction ''Init -> S*;''),
         ((''A -> *_NUM; Init -> *S; S -> *A; S -> *_NUM;'', ''A''), gotoAction ''S -> A*;'')]\<rparr>"

text \<open>The tables, the states, the initial state and the work list that the loop leaves.\<close>

definition graph_tables ::
  "(panic + 'v Grammar \<times> State list) option
     \<Rightarrow> (panic + string \<times> (tableKey \<times> action) list \<times> (tableKey \<times> action) list \<times> (string \<times> State) list
           \<times> State list) option" where
  "graph_tables r =
     map_option (map_sum id (\<lambda>gq. (initialState (fst gq), actionTable (fst gq), gotoTable (fst gq),
                                    states (fst gq), snd gq))) r"

text \<open>
  A grammar whose start rule has one symbol and whose start symbol stands on the
  right-hand side of another rule: \<open>Init -> E\<close>, \<open>E -> "(" Init\<close>, \<open>E -> number\<close>.
\<close>

definition nested_rules :: "unit val Rule list" where
  "nested_rules =
     [\<lparr>LHS = ''Init'', RHS = [''E''], Conv = first_arg\<rparr>,
      \<lparr>LHS = ''E'', RHS = [''&('', ''Init''], Conv = first_arg\<rparr>,
      \<lparr>LHS = ''E'', RHS = [''_NUM''], Conv = first_arg\<rparr>]"

text \<open>
  The state an action leads to, the rows that hold an accept action, and the pairs of states
  joined by an entry of one of the two tables.
\<close>

definition target :: "action \<Rightarrow> string option" where
  "target a = (case a of shiftAction q \<Rightarrow> Some q | gotoAction q \<Rightarrow> Some q | _ \<Rightarrow> None)"

definition accepting_row :: "'v Grammar \<Rightarrow> string \<Rightarrow> bool" where
  "accepting_row gr k \<longleftrightarrow> (\<exists>e \<in> set (actionTable gr). fst (fst e) = k \<and> snd e = acceptAction)"


text \<open>
  The tables of a grammar with an augmented start: no entry leads to the initial state,
  and an entry that leads to a row with an accept action stands in the row of the initial
  state. The start symbol is then met once, at the bottom of the stack.
\<close>

definition start_entry :: "'v Grammar \<Rightarrow> bool" where
  "start_entry gr \<longleftrightarrow>
     (\<forall>e \<in> set (actionTable gr @ gotoTable gr).
        case target (snd e) of
          None \<Rightarrow> True
        | Some k \<Rightarrow> k \<noteq> initialState gr \<and> (accepting_row gr k \<longrightarrow> fst (fst e) = initialState gr))"



text \<open>
  A grammar with the rules that BuildOperatorRules builds for the operators \<open>+\<close> and
  \<open>-\<close> of one priority, between a start rule and a rule for the leaf.
\<close>

definition two_operators :: "Operator list" where
  "two_operators =
     [\<lparr>Associativity = LeftAssociative, Priority = 1, Symbols = [''&+'']\<rparr>,
      \<lparr>Associativity = LeftAssociative, Priority = 1, Symbols = [''&-'']\<rparr>]"

definition operator_grammar :: "bool \<Rightarrow> unit val Rule list list" where
  "operator_grammar per_pass =
     [[\<lparr>LHS = ''Init'', RHS = [''E''], Conv = first_arg\<rparr>],
      (case BuildOperatorRules insertion_order per_pass ''E'' ''T'' two_operators (\<lambda>name a b. a) of
         Inl p \<Rightarrow> []
       | Inr rules \<Rightarrow> rules),
      [\<lparr>LHS = ''T'', RHS = [''_NUM''], Conv = first_arg\<rparr>]]"

section \<open>closeItems ends\<close>

lemma add_rule_fst_mono: "fst ` set (fst mi) \<subseteq> fst ` set (fst (add_rule symb r mi))"
  by (auto simp: add_rule_def Let_def dom_update map_of_eq_None_iff)

lemma fold_add_rule_mono: "fst ` set (fst mi) \<subseteq> fst ` set (fst (fold (add_rule symb) rules mi))"
proof (induction rules arbitrary: mi)
  case Nil
  then show ?case by simp
next
  case (Cons r rs)
  from add_rule_fst_mono [of mi symb r] Cons [of "add_rule symb r mi"] show ?case by auto
qed

lemma add_rule_cases:
  "add_rule symb r mi = mi \<or>
   (Item_String \<lparr>ItemLHS = LHS r, ItemRHS = RHS r, DotPos = 0\<rparr> \<notin> fst ` set (fst mi) \<and>
    Item_String \<lparr>ItemLHS = LHS r, ItemRHS = RHS r, DotPos = 0\<rparr> \<in> fst ` set (fst (add_rule symb r mi)))"
  by (auto simp: add_rule_def Let_def dom_update map_of_eq_None_iff)

lemma fold_add_rule_cases:
  "fold (add_rule symb) rules mi = mi \<or>
   (\<exists>k \<in> rule_keys rules. k \<notin> fst ` set (fst mi) \<and> k \<in> fst ` set (fst (fold (add_rule symb) rules mi)))"
proof (induction rules arbitrary: mi)
  case Nil
  then show ?case by simp
next
  case (Cons r rs)
  let ?k = "Item_String \<lparr>ItemLHS = LHS r, ItemRHS = RHS r, DotPos = 0\<rparr>"
  let ?mi = "add_rule symb r mi"
  have sub: "rule_keys rs \<subseteq> rule_keys (r # rs)" and k: "?k \<in> rule_keys (r # rs)"
    by (auto simp: rule_keys_def)
  from add_rule_cases [of symb r mi] show ?case
  proof
    assume eq: "?mi = mi"
    from Cons [of mi] sub eq show ?thesis by auto
  next
    assume new: "?k \<notin> fst ` set (fst mi) \<and> ?k \<in> fst ` set (fst ?mi)"
    with fold_add_rule_mono [of ?mi symb rs] have "?k \<in> fst ` set (fst (fold (add_rule symb) (r # rs) mi))"
      by auto
    with new k show ?thesis by blast
  qed
qed

termination closeItems_loop

proof (relation "measures [\<lambda>(rules, m, items). card (rule_keys rules - fst ` set m), \<lambda>(rules, m, items). length items]", goal_cases)
  case 1
  then show ?case by simp
next
  case (2 rules m it items mi)
  let ?f = "fold (add_rule (ItemRHS it ! DotPos it)) rules (m, items)"
  have fin: "finite (rule_keys rules)" by (simp add: rule_keys_def)
  from fold_add_rule_cases [of "ItemRHS it ! DotPos it" rules "(m, items)"] show ?case
  proof
    assume "?f = (m, items)"
    with 2 show ?thesis by simp
  next
    assume "\<exists>k \<in> rule_keys rules. k \<notin> fst ` set (fst (m, items)) \<and> k \<in> fst ` set (fst ?f)"
    then obtain k where k: "k \<in> rule_keys rules" "k \<notin> fst ` set m" "k \<in> fst ` set (fst ?f)" by auto
    from fold_add_rule_mono [of "(m, items)" "ItemRHS it ! DotPos it" rules]
    have "rule_keys rules - fst ` set (fst ?f) \<subset> rule_keys rules - fst ` set m"
      using k by auto
    with fin have "card (rule_keys rules - fst ` set (fst ?f)) < card (rule_keys rules - fst ` set m)"
      by (intro psubset_card_mono) auto
    with 2 show ?thesis by (simp add: case_prod_beta)
  qed
next
  case (3 rules m it items)
  then show ?case by simp
qed

section \<open>CoalesceSymbols: lemmas and theorem\<close>

lemma index_clusters_lookup:
  "[] \<notin> set clusters \<Longrightarrow>
   \<exists>m'. index_clusters m clusters = Inr m' \<and>
        (\<forall>k. lookup_list m' k = lookup_list m k @ filter (\<lambda>c. take 1 c = k) clusters)"
proof (induction clusters arbitrary: m)
  case Nil
  then show ?case by simp
next
  case (Cons c cs)
  then have c: "c \<noteq> []" and cs: "[] \<notin> set cs" by auto
  let ?m = "m(take 1 c \<mapsto> lookup_list m (take 1 c) @ [c])"
  from Cons.IH [OF cs, of ?m] obtain m' where
    m': "index_clusters ?m cs = Inr m'"
    and l: "\<forall>k. lookup_list m' k = lookup_list ?m k @ filter (\<lambda>c. take 1 c = k) cs" by blast
  have "lookup_list ?m k @ filter (\<lambda>c. take 1 c = k) cs
      = lookup_list m k @ filter (\<lambda>c. take 1 c = k) (c # cs)" for k
    by (simp add: lookup_list_def)
  with m' l c show ?case by simp
qed

lemma match_rest_unfold:
  "match_rest tokens i c j =
     (j < length c \<and> tok_ok tokens c i j \<and> (j + 1 = length c \<or> match_rest tokens i c (j + 1)))"
  by (subst match_rest.simps) (auto simp: Let_def tok_ok_def)

lemma match_rest_iff:
  "match_rest tokens i c j = (j < length c \<and> (\<forall>k. j \<le> k \<and> k < length c \<longrightarrow> tok_ok tokens c i k))"
proof (induction tokens i c j rule: match_rest.induct)
  case (1 tokens i c j)
  show ?case
  proof (cases "j < length c \<and> tok_ok tokens c i j")
    case False
    then show ?thesis by (subst match_rest_unfold) auto
  next
    case True
    then have lt: "j < length c" and okj: "tok_ok tokens c i j" by auto
    show ?thesis
    proof (cases "j + 1 = length c")
      case True
      then have "\<And>k. j \<le> k \<and> k < length c \<longleftrightarrow> k = j" by auto
      with True okj lt show ?thesis by (subst match_rest_unfold) simp
    next
      case False
      with lt have lt': "j + 1 < length c" by simp
      have ih: "match_rest tokens i c (j + 1) =
          (j + 1 < length c \<and> (\<forall>k. j + 1 \<le> k \<and> k < length c \<longrightarrow> tok_ok tokens c i k))"
        using "1.IH" [OF lt refl _ False] okj by (simp add: tok_ok_def)
      have eq: "(\<forall>k. j \<le> k \<and> k < length c \<longrightarrow> tok_ok tokens c i k) \<longleftrightarrow>
            (\<forall>k. j + 1 \<le> k \<and> k < length c \<longrightarrow> tok_ok tokens c i k)"
      proof (intro iffI allI impI)
        fix k assume a: "\<forall>k. j + 1 \<le> k \<and> k < length c \<longrightarrow> tok_ok tokens c i k" and b: "j \<le> k \<and> k < length c"
        show "tok_ok tokens c i k"
        proof (cases "k = j")
          case True
          with okj show ?thesis by simp
        next
          case False
          with b have "j + 1 \<le> k \<and> k < length c" by simp
          with a show ?thesis by blast
        qed
      next
        fix k assume a: "\<forall>k. j \<le> k \<and> k < length c \<longrightarrow> tok_ok tokens c i k" and b: "j + 1 \<le> k \<and> k < length c"
        from b have "j \<le> k \<and> k < length c" by simp
        with a show "tok_ok tokens c i k" by blast
      qed
      show ?thesis
        by (subst match_rest_unfold) (simp only: ih eq lt lt' okj False simp_thms)
    qed
  qed
qed


lemma fits_iff:
  assumes i: "i < length tokens" and sym: "Type (tokens ! i) = Symbol"
    and c: "c \<noteq> []" and key: "take 1 c = Form (tokens ! i)"
  shows "fits c (drop i tokens) \<longleftrightarrow> length c \<le> length tokens - i \<and> match_rest tokens i c 1"
proof (cases "length c \<le> length tokens - i")
  case False
  then show ?thesis by (simp add: fits_def)
next
  case len: True
  have hd: "hd (drop i tokens) = tokens ! i" using i by (simp add: hd_drop_conv_nth)
  have nth: "take (length c) (drop i tokens) ! k = tokens ! (i + k)" if "k < length c" for k
    using that len by simp
  have ok0: "tok_ok tokens c i 0"
    using sym key c by (cases c) (auto simp: tok_ok_def)
  have all: "list_all2 (\<lambda>t ch. (Type t = Symbol \<or> Type t = Word) \<and> Form t = [ch]) (take (length c) (drop i tokens)) c
     \<longleftrightarrow> (\<forall>k < length c. tok_ok tokens c i k)"
    using len by (simp add: list_all2_conv_all_nth tok_ok_def)
  have split: "(\<forall>k < length c. tok_ok tokens c i k) \<longleftrightarrow> (\<forall>k. 1 \<le> k \<and> k < length c \<longrightarrow> tok_ok tokens c i k)"
  proof (intro iffI allI impI)
    fix k assume a: "\<forall>k. 1 \<le> k \<and> k < length c \<longrightarrow> tok_ok tokens c i k" and b: "k < length c"
    show "tok_ok tokens c i k"
    proof (cases "k = 0")
      case True
      with ok0 show ?thesis by simp
    next
      case False
      with a b show ?thesis by simp
    qed
  qed simp
  have "fits c (drop i tokens) \<longleftrightarrow> 2 \<le> length c \<and> (\<forall>k. 1 \<le> k \<and> k < length c \<longrightarrow> tok_ok tokens c i k)"
    unfolding fits_def hd all split using len sym by simp
  also have "\<dots> \<longleftrightarrow> match_rest tokens i c 1"
    by (subst match_rest_iff) auto
  finally show ?thesis using len by simp
qed

lemma fits_key:
  assumes "fits c ts"
  shows "Type (hd ts) = Symbol \<and> take 1 c = Form (hd ts) \<and> ts \<noteq> []"
proof -
  from assms have l: "2 \<le> length c" "length c \<le> length ts" and s: "Type (hd ts) = Symbol"
    and a: "list_all2 (\<lambda>t ch. (Type t = Symbol \<or> Type t = Word) \<and> Form t = [ch]) (take (length c) ts) c"
    by (auto simp: fits_def)
  from l obtain t ts' where ts: "ts = t # ts'" by (cases ts) auto
  from l obtain ch c' where c: "c = ch # c'" by (cases c) auto
  from a ts c have "Form t = [ch]" by simp
  with ts c s show ?thesis by simp
qed

lemma try_clusters_find:
  assumes i: "i < length tokens" and ne: "[] \<notin> set clusters"
  shows "(if Type (tokens ! i) = Symbol
          then try_clusters tokens i (filter (\<lambda>c. take 1 c = Form (tokens ! i)) clusters)
          else None) = find (\<lambda>c. fits c (drop i tokens)) clusters"
proof (cases "Type (tokens ! i) = Symbol")
  case False
  have hd: "hd (drop i tokens) = tokens ! i" using i by (simp add: hd_drop_conv_nth)
  have "\<not> fits c (drop i tokens)" for c
    using fits_key [of c "drop i tokens"] False hd by auto
  then have "find (\<lambda>c. fits c (drop i tokens)) clusters = None"
    by (simp add: find_None_iff)
  with False show ?thesis by simp
next
  case True
  have hd: "hd (drop i tokens) = tokens ! i" using i by (simp add: hd_drop_conv_nth)
  have "try_clusters tokens i (filter (\<lambda>c. take 1 c = Form (tokens ! i)) clusters)
      = find (\<lambda>c. fits c (drop i tokens)) clusters"
    using ne
  proof (induction clusters)
    case Nil
    then show ?case by simp
  next
    case (Cons c cs)
    then have c: "c \<noteq> []" and cs: "[] \<notin> set cs" by auto
    show ?case
    proof (cases "take 1 c = Form (tokens ! i)")
      case k: True
      from fits_iff [OF i True c k] Cons.IH [OF cs] k show ?thesis by simp
    next
      case k: False
      then have "\<not> fits c (drop i tokens)"
        using fits_key [of c "drop i tokens"] hd by auto
      with Cons.IH [OF cs] k show ?thesis by simp
    qed
  qed
  with True show ?thesis by simp
qed

lemma coalesce_loop_fuse:
  assumes ne: "[] \<notin> set clusters"
    and m: "\<And>k. lookup_list m k = filter (\<lambda>c. take 1 c = k) clusters"
  shows "coalesce_loop m tokens i tokens2 = tokens2 @ fuse_spec clusters (drop i tokens)"
proof (induction "length tokens - i" arbitrary: i tokens2 rule: less_induct)
  case less
  show ?case
  proof (cases "i < length tokens")
    case False
    then show ?thesis by (subst coalesce_loop.simps) simp
  next
    case True
    let ?t = "tokens ! i"
    have dr: "drop i tokens = ?t # drop (Suc i) tokens"
      using True by (simp add: Cons_nth_drop_Suc)
    have "(case m (Form ?t) of Some cs \<Rightarrow> try_clusters tokens i cs | None \<Rightarrow> None)
        = try_clusters tokens i (lookup_list m (Form ?t))"
      by (simp add: lookup_list_def split: option.split)
    then have sel: "(if Type ?t = Symbol
               then (case m (Form ?t) of Some cs \<Rightarrow> try_clusters tokens i cs | None \<Rightarrow> None)
               else None) = find (\<lambda>c. fits c (drop i tokens)) clusters"
      using try_clusters_find [OF True ne] by (simp only: m)
    show ?thesis
    proof (cases "find (\<lambda>c. fits c (drop i tokens)) clusters")
      case None
      have "coalesce_loop m tokens i tokens2 = coalesce_loop m tokens (i + 1) (tokens2 @ [?t])"
        by (subst coalesce_loop.simps) (simp add: True sel None Let_def)
      also have "\<dots> = (tokens2 @ [?t]) @ fuse_spec clusters (drop (i + 1) tokens)"
        using True by (intro less) simp
      also have "\<dots> = tokens2 @ fuse_spec clusters (drop i tokens)"
        using None by (simp add: dr)
      finally show ?thesis .
    next
      case (Some c)
      let ?f = "\<lparr>Type = Symbol, Form = c, Loc = Loc ?t, Tag = ''''\<rparr>"
      have "coalesce_loop m tokens i tokens2 = coalesce_loop m tokens (i + (length c - 1) + 1) (tokens2 @ [?f])"
        by (subst coalesce_loop.simps) (simp add: True sel Some Let_def)
      also have "\<dots> = (tokens2 @ [?f]) @ fuse_spec clusters (drop (i + (length c - 1) + 1) tokens)"
        using True by (intro less) simp
      also have "drop (i + (length c - 1) + 1) tokens = drop (length c - 1) (drop (Suc i) tokens)"
        by (simp add: add.commute)
      also have "(tokens2 @ [?f]) @ fuse_spec clusters (drop (length c - 1) (drop (Suc i) tokens))
          = tokens2 @ fuse_spec clusters (drop i tokens)"
        using Some by (simp add: dr)
      finally show ?thesis .
    qed
  qed
qed

text \<open>
  C9. When no cluster is the empty string, the tokens CoalesceSymbols returns are those of
  \<open>fuse_spec\<close>: wherever a cluster fits, the emitted token is a symbol token whose form is
  the cluster and whose location is that of the first fused token; the fused run is made
  of adjacent symbol or word tokens of one byte each, the first a symbol, that spell the
  cluster; the cluster taken is the first of the list that fits, which is the first that
  fits among those with the same first byte; and a token at which no cluster fits is
  copied unchanged. A cluster of one byte never fits, for the loop over \<open>j\<close> has then
  nothing to run over. With an empty cluster in the list, \<open>c[:1]\<close> panics.
\<close>

theorem CoalesceSymbols_fuses:
  assumes "[] \<notin> set clusters"
  shows "CoalesceSymbols tokens clusters = Inr (fuse_spec clusters tokens)"
proof -
  from index_clusters_lookup [OF assms, of Map.empty] obtain m where
    m: "index_clusters Map.empty clusters = Inr m"
    and l: "\<forall>k. lookup_list m k = lookup_list Map.empty k @ filter (\<lambda>c. take 1 c = k) clusters" by blast
  from l have "\<And>k. lookup_list m k = filter (\<lambda>c. take 1 c = k) clusters"
    by (simp add: lookup_list_def)
  from coalesce_loop_fuse [OF assms this, of tokens 0 "[]"] m show ?thesis
    by (simp add: CoalesceSymbols_def)
qed

theorem CoalesceSymbols_fuses_witness:
  "[] \<notin> set [''=>'', ''=='', ''==>''] \<and>
   CoalesceSymbols [tk Word ''a'' 1, tk Symbol ''='' 2, tk Symbol ''='' 3, tk Symbol ''>'' 4, tk Word ''b'' 5]
       [''=>'', ''=='', ''==>'']
     = Inr [tk Word ''a'' 1,
            \<lparr>Type = Symbol, Form = ''=='', Loc = \<lparr>Line = 1, Column = 2\<rparr>, Tag = ''''\<rparr>,
            tk Symbol ''>'' 4, tk Word ''b'' 5]"
  using CoalesceSymbols_fuses [of "[''=>'', ''=='', ''==>'']"
      "[tk Word ''a'' 1, tk Symbol ''='' 2, tk Symbol ''='' 3, tk Symbol ''>'' 4, tk Word ''b'' 5]"]
  by (simp add: tk_def fits_def)

section \<open>The tables of BuildItems\<close>

lemma fills_refl: "fills C tbl tbl"
  by (simp add: fills_def)

lemma fills_keeps: "fills C t1 t2 \<Longrightarrow> map_of t1 k = Some a \<Longrightarrow> map_of t2 k = Some a"
  unfolding fills_def by blast

lemma fills_new:
  "fills C t1 t2 \<Longrightarrow> map_of t2 k = Some a \<Longrightarrow>
   map_of t1 k = Some a \<or> (map_of t1 k = None \<and> (\<exists>i. a = reduceAction i) \<and> snd k \<in> C)"
  unfolding fills_def by blast

lemma fills_trans:
  assumes a: "fills C t1 t2" and b: "fills C t2 t3"
  shows "fills C t1 t3"
  unfolding fills_def
proof (intro conjI allI impI)
  fix k a assume "map_of t1 k = Some a"
  with a have "map_of t2 k = Some a" by (rule fills_keeps)
  with b show "map_of t3 k = Some a" by (rule fills_keeps)
next
  fix k x assume 3: "map_of t3 k = Some x"
  let ?new = "(\<exists>i. x = reduceAction i) \<and> snd k \<in> C"
  from fills_new [OF b 3] have "map_of t2 k = Some x \<or> (map_of t2 k = None \<and> ?new)" .
  then show "map_of t1 k = Some x \<or> (map_of t1 k = None \<and> ?new)"
  proof
    assume 2: "map_of t2 k = Some x"
    from fills_new [OF a 2] show ?thesis .
  next
    assume 2: "map_of t2 k = None \<and> ?new"
    have "map_of t1 k = None"
    proof (cases "map_of t1 k")
      case (Some y)
      with a have "map_of t2 k = Some y" by (rule fills_keeps)
      with 2 show ?thesis by simp
    qed simp
    with 2 show ?thesis by simp
  qed
qed

lemma fills_mono: "fills C t1 t2 \<Longrightarrow> C \<subseteq> D \<Longrightarrow> fills D t1 t2"
  unfolding fills_def by blast

lemma fill_terminal_Inl: "fill_terminal row i t (Inl p) = Inl p"
  by (simp add: fill_terminal_def)

lemma fill_terminal_fills:
  assumes "fill_terminal row i t (Inr tbl) = Inr tbl'"
  shows "fills {t} tbl tbl'"
proof (cases "map_of tbl (row, t)")
  case None
  with assms have "tbl' = AList.update (row, t) (reduceAction i) tbl"
    by (simp add: fill_terminal_def)
  with None show ?thesis
    by (auto simp: fills_def update_conv')
next
  case (Some a)
  with assms have "tbl' = tbl"
    by (cases a) (simp_all add: fill_terminal_def)
  then show ?thesis by (simp add: fills_refl)
qed

lemma fill_terminal_cell:
  assumes "fill_terminal row i t (Inr tbl) = Inr tbl'"
  shows "(\<exists>q. map_of tbl' (row, t) = Some (shiftAction q)) \<or> map_of tbl' (row, t) = Some (reduceAction i)"
proof (cases "map_of tbl (row, t)")
  case None
  with assms have "tbl' = AList.update (row, t) (reduceAction i) tbl"
    by (simp add: fill_terminal_def)
  then show ?thesis by (simp add: update_conv')
next
  case (Some a)
  with assms show ?thesis
    by (cases a) (simp_all add: fill_terminal_def)
qed

lemma fill_terminal_conflict:
  "map_of tbl (row, t) = Some a \<Longrightarrow> \<not> is_shift a \<Longrightarrow> fill_terminal row i t (Inr tbl) = Inl (Conflict t a)"
  by (cases a) (simp_all add: fill_terminal_def is_shift_def)

lemma fold_Inl:
  assumes "\<forall>x p. f x (Inl p) = Inl p"
  shows "fold f xs (Inl p) = Inl p"
  by (induction xs) (simp_all add: assms)

lemma fold_Inr_start:
  assumes "\<forall>x p. f x (Inl p) = Inl p" and "fold f xs s = Inr t'"
  shows "\<exists>t. s = Inr t"
proof (cases s)
  case (Inl p)
  with fold_Inl [OF assms(1), of xs p] assms(2) show ?thesis by simp
qed simp

lemma fold_fills:
  assumes inl: "\<forall>x p. f x (Inl p) = Inl p"
    and step: "\<forall>x \<in> set xs. \<forall>t t'. f x (Inr t) = Inr t' \<longrightarrow> fills C t t'"
  shows "fold f xs (Inr t) = Inr t' \<Longrightarrow> fills C t t'"
  using step
proof (induction xs arbitrary: t)
  case Nil
  then show ?case by (simp add: fills_refl)
next
  case (Cons x xs)
  from Cons.prems(1) have f: "fold f xs (f x (Inr t)) = Inr t'" by simp
  from fold_Inr_start [OF inl f] obtain t1 where t1: "f x (Inr t) = Inr t1" by blast
  have a: "fills C t t1" using Cons.prems(2) t1 by simp
  have b: "fills C t1 t'" using Cons.IH [of t1] f t1 Cons.prems(2) by simp
  from fills_trans [OF a b] show ?case .
qed

lemma fold_visit:
  assumes inl: "\<forall>x p. f x (Inl p) = Inl p"
    and step: "\<forall>x \<in> set xs. \<forall>t t'. f x (Inr t) = Inr t' \<longrightarrow> fills C t t'"
    and res: "fold f xs (Inr t) = Inr t'" and x: "x \<in> set xs"
  shows "\<exists>t1 t2. f x (Inr t1) = Inr t2 \<and> fills C t t1 \<and> fills C t2 t'"
  using step res x
proof (induction xs arbitrary: t)
  case Nil
  then show ?case by simp
next
  case (Cons y ys)
  from Cons.prems(2) have f: "fold f ys (f y (Inr t)) = Inr t'" by simp
  from fold_Inr_start [OF inl f] obtain t1 where t1: "f y (Inr t) = Inr t1" by blast
  have a: "fills C t t1" using Cons.prems(1) t1 by simp
  have stepys: "\<forall>x \<in> set ys. \<forall>t t'. f x (Inr t) = Inr t' \<longrightarrow> fills C t t'"
    using Cons.prems(1) by simp
  show ?case
  proof (cases "x = y")
    case True
    have "fills C t1 t'" using fold_fills [OF inl stepys, of t1 t'] f t1 by simp
    with True t1 show ?thesis using fills_refl by blast
  next
    case False
    with Cons.prems(3) have "x \<in> set ys" by simp
    from Cons.IH [OF stepys _ this, of t1] f t1
    obtain u1 u2 where "f x (Inr u1) = Inr u2" "fills C t1 u1" "fills C u2 t'" by auto
    with a show ?thesis using fills_trans by blast
  qed
qed


lemma range_order_subset: "set (range_order rng xs) \<subseteq> set xs"
  by (auto simp: range_order_def)

lemma range_order_mset:
  assumes "is_order rng"
  shows "mset (range_order rng xs) = mset xs"
proof -
  from assms have m: "mset (rng (length xs)) = mset [0..<length xs]" by (simp add: is_order_def)
  then have "set (rng (length xs)) = set [0..<length xs]" by (rule mset_eq_setD)
  then have "filter (\<lambda>i. i < length xs) (rng (length xs)) = rng (length xs)"
    by (intro filter_True) auto
  then have "mset (range_order rng xs) = image_mset ((!) xs) (mset (rng (length xs)))"
    by (simp add: range_order_def)
  also have "\<dots> = mset (map ((!) xs) [0..<length xs])" by (simp add: m)
  also have "\<dots> = mset xs" by (simp add: map_nth)
  finally show ?thesis .
qed

lemma range_order_set: "is_order rng \<Longrightarrow> set (range_order rng xs) = set xs"
  using range_order_mset [of rng xs] by (metis set_mset_mset)

lemma fill_item_Inl: "fill_item rng terminals state i it it2 (Inl p) = Inl p"
  by (simp add: fill_item_def fold_Inl fill_terminal_Inl)

lemma fill_item_fills:
  assumes "fill_item rng terminals state i it it2 (Inr t) = Inr t'"
  shows "fills (set terminals) t t'"
proof (cases "Item_String it = Item_String it2")
  case False
  with assms show ?thesis by (simp add: fill_item_def fills_refl)
next
  case True
  with assms have f: "fold (fill_terminal (State_String state) i) (range_order rng terminals) (Inr t) = Inr t'"
    by (simp add: fill_item_def)
  have "\<forall>x \<in> set (range_order rng terminals). \<forall>t t'.
      fill_terminal (State_String state) i x (Inr t) = Inr t' \<longrightarrow> fills (set terminals) t t'"
    using fill_terminal_fills range_order_subset [of rng terminals]
    by (meson empty_subsetI fills_mono insert_subset subsetD)
  from fold_fills [OF _ this f] show ?thesis by (simp add: fill_terminal_Inl)
qed

lemma fill_rule_Inl: "fill_rule rng terminals state ir (Inl p) = Inl p"
  by (simp add: fill_rule_def fold_Inl fill_item_Inl)

lemma fill_rule_fills:
  assumes "fill_rule rng terminals state ir (Inr t) = Inr t'"
  shows "fills (set terminals) t t'"
proof (cases "0 < fst ir")
  case False
  with assms show ?thesis by (simp add: fill_rule_def fills_refl)
next
  case True
  with assms have f: "fold (fill_item rng terminals state (fst ir) (completed (snd ir))) (Items state) (Inr t) = Inr t'"
    by (simp add: fill_rule_def completed_def)
  show ?thesis
    by (rule fold_fills [OF _ _ f]) (simp_all add: fill_item_Inl fill_item_fills)
qed

lemma fill_state_Inl: "fill_state rng terminals rules state (Inl p) = Inl p"
  by (simp add: fill_state_def fold_Inl fill_rule_Inl)

lemma fill_state_fills:
  assumes "fill_state rng terminals rules state (Inr t) = Inr t'"
  shows "fills (set terminals) t t'"
  using assms unfolding fill_state_def
  by (rule fold_fills [rotated 2]) (simp_all add: fill_rule_Inl fill_rule_fills)

lemma fill_reduces_fills:
  assumes "fill_reduces rng gr = Inr t'"
  shows "fills (set (terminals_of rng (actionTable gr))) (actionTable gr) t'"
  using assms unfolding fill_reduces_def
  by (rule fold_fills [rotated 2]) (simp_all add: fill_state_Inl fill_state_fills)

lemma fill_reduces_cell:
  assumes res: "fill_reduces rng gr = Inr tbl'"
    and st: "st \<in> set (range_order rng (map snd (states gr)))"
    and i: "0 < i" "i < length (Rules gr)"
    and it2: "it2 \<in> set (Items st)" "Item_String (completed (Rules gr ! i)) = Item_String it2"
    and t: "t \<in> set (range_order rng (terminals_of rng (actionTable gr)))"
  shows "(\<exists>q. map_of tbl' (State_String st, t) = Some (shiftAction q)) \<or>
         map_of tbl' (State_String st, t) = Some (reduceAction i)"
proof -
  let ?T = "terminals_of rng (actionTable gr)"
  let ?C = "set ?T"
  from fold_visit [OF _ _ res [unfolded fill_reduces_def] st, of ?C]
  obtain t1 t2 where 1: "fill_state rng ?T (Rules gr) st (Inr t1) = Inr t2" and f1: "fills ?C t2 tbl'"
    by (auto simp: fill_state_Inl fill_state_fills)
  have ir: "(i, Rules gr ! i) \<in> set (enumerate 0 (Rules gr))"
    using i by (simp add: in_set_enumerate_eq)
  from fold_visit [OF _ _ 1 [unfolded fill_state_def] ir, of ?C]
  obtain t3 t4 where 2: "fill_rule rng ?T st (i, Rules gr ! i) (Inr t3) = Inr t4" and f2: "fills ?C t4 t2"
    by (auto simp: fill_rule_Inl fill_rule_fills)
  from 2 i have r2: "fold (fill_item rng ?T st i (completed (Rules gr ! i))) (Items st) (Inr t3) = Inr t4"
    by (simp add: fill_rule_def completed_def)
  from fold_visit [OF _ _ r2 it2(1), of ?C]
  obtain t5 t6 where 3: "fill_item rng ?T st i (completed (Rules gr ! i)) it2 (Inr t5) = Inr t6" and f3: "fills ?C t6 t4"
    by (auto simp: fill_item_Inl fill_item_fills)
  from 3 it2(2) have r3: "fold (fill_terminal (State_String st) i) (range_order rng ?T) (Inr t5) = Inr t6"
    by (simp add: fill_item_def)
  have stepT: "\<forall>x \<in> set (range_order rng ?T). \<forall>t t'.
      fill_terminal (State_String st) i x (Inr t) = Inr t' \<longrightarrow> fills ?C t t'"
    using fill_terminal_fills range_order_subset [of rng ?T]
    by (meson empty_subsetI fills_mono insert_subset subsetD)
  from fold_visit [OF _ stepT r3 t]
  obtain t7 t8 where 4: "fill_terminal (State_String st) i t (Inr t7) = Inr t8" and f4: "fills ?C t8 t6"
    by (auto simp: fill_terminal_Inl)
  have chain: "fills ?C t8 tbl'"
    using fills_trans [OF fills_trans [OF fills_trans [OF f4 f3] f2] f1] .
  from fill_terminal_cell [OF 4] show ?thesis
    using fills_keeps [OF chain] by blast
qed

lemma State_sorted_idem: "State_sorted (State_sorted st) = State_sorted st"
  by (simp add: State_sorted_def sort_key_id_if_sorted)

lemma State_String_sorted: "State_String (State_sorted st) = State_String st"
  by (simp add: State_String_def State_sorted_idem)

lemma set_Items_sorted: "set (Items (State_sorted st)) = set (Items st)"
  by (simp add: State_sorted_def)

lemma items_from_sorted: "items_from rules (Items (State_sorted st)) = items_from rules (Items st)"
  by (simp add: items_from_def set_Items_sorted)

lemma fold_mark_accept:
  "map_of (fold (mark_accept acc k2) its tbl) = map_of tbl \<or>
   map_of (fold (mark_accept acc k2) its tbl) = (map_of tbl)((k2, ''_EOF'') \<mapsto> acceptAction)"
proof (induction its arbitrary: tbl)
  case Nil
  then show ?case by simp
next
  case (Cons it its)
  show ?case
  proof (cases "Item_String it = Item_String acc")
    case False
    with Cons [of tbl] show ?thesis by (simp add: mark_accept_def)
  next
    case True
    let ?t = "AList.update (k2, ''_EOF'') acceptAction tbl"
    from True have "fold (mark_accept acc k2) (it # its) tbl = fold (mark_accept acc k2) its ?t"
      by (simp add: mark_accept_def)
    with Cons [of ?t] show ?thesis by (auto simp: update_conv')
  qed
qed

text \<open>What one transition does to the grammar and the queue.\<close>

lemma transition_Inl: "transition rng acc state symb (Inl p) = Inl p"
  by (simp add: transition_def)

lemma transition_effect:
  assumes "transition rng acc state symb (Inr (gr, q)) = Inr (gr', q')"
  shows "symb \<noteq> [] \<and> Rules gr' = Rules gr \<and> states gr' = states gr \<and> initialState gr' = initialState gr \<and>
    (\<exists>key2 b.
       map_of (actionTable gr') =
         (if b then (\<lambda>m. m((key2, ''_EOF'') \<mapsto> acceptAction)) else id)
           ((if terminal_prefix symb then (\<lambda>m. m((State_String state, symb) \<mapsto> shiftAction key2)) else id)
              (map_of (actionTable gr))) \<and>
       (b \<longrightarrow> map_of (states gr) key2 = None) \<and>
       map_of (gotoTable gr') =
         (if terminal_prefix symb then id else (\<lambda>m. m((State_String state, symb) \<mapsto> gotoAction key2)))
           (map_of (gotoTable gr))) \<and>
    (q' = q \<or> q' = q @ [State_sorted \<lparr>Items = closeItems rng (Rules gr) (goto_items state symb)\<rparr>])"
proof -
  let ?items = "closeItems rng (Rules gr) (goto_items state symb)"
  let ?key2 = "State_String \<lparr>Items = ?items\<rparr>"
  let ?state2 = "State_sorted \<lparr>Items = ?items\<rparr>"
  let ?gr1 = "(if terminal_prefix symb
              then gr\<lparr>actionTable := AList.update (State_String state, symb) (shiftAction ?key2) (actionTable gr)\<rparr>
              else gr\<lparr>gotoTable := AList.update (State_String state, symb) (gotoAction ?key2) (gotoTable gr)\<rparr>)"
  from assms have ne: "symb \<noteq> []" by (auto simp: transition_def Let_def split: if_splits)
  have st1: "states ?gr1 = states gr" by simp
  show ?thesis
  proof (cases "map_of (states gr) ?key2 = None")
    case False
    with assms ne have "gr' = ?gr1" "q' = q"
      by (auto simp: transition_def Let_def split: if_splits)
    then show ?thesis using ne
      by (intro conjI exI [of _ ?key2] exI [of _ False]) (auto simp: update_conv')
  next
    case True
    let ?tbl = "fold (mark_accept acc ?key2) (Items ?state2) (actionTable ?gr1)"
    from True assms ne have g: "gr' = ?gr1\<lparr>actionTable := ?tbl\<rparr>" and q: "q' = q @ [?state2]"
      by (auto simp: transition_def Let_def split: if_splits)
    from fold_mark_accept [of acc ?key2 "Items ?state2" "actionTable ?gr1"]
    show ?thesis
    proof
      assume "map_of ?tbl = map_of (actionTable ?gr1)"
      with g q ne show ?thesis
        by (intro conjI exI [of _ ?key2] exI [of _ False]) (auto simp: update_conv')
    next
      assume "map_of ?tbl = (map_of (actionTable ?gr1))((?key2, ''_EOF'') \<mapsto> acceptAction)"
      with g q ne True show ?thesis
        by (intro conjI exI [of _ ?key2] exI [of _ True]) (auto simp: update_conv')
    qed
  qed
qed

lemma items_from_update:
  "items_from rules (map snd al) \<Longrightarrow> ItemRHS v \<in> RHS ` set rules \<Longrightarrow>
   items_from rules (map snd (AList.update k v al))"
  by (induction al) (auto simp: items_from_def)

lemma items_from_append:
  "items_from rules (xs @ ys) \<longleftrightarrow> items_from rules xs \<and> items_from rules ys"
  by (auto simp: items_from_def)

lemma items_from_Cons:
  "items_from rules (x # xs) \<longleftrightarrow> ItemRHS x \<in> RHS ` set rules \<and> items_from rules xs"
  by (auto simp: items_from_def)

lemma items_from_Nil: "items_from rules []"
  by (simp add: items_from_def)

lemma add_rule_from:
  assumes "items_from rules (map snd (fst mi))" and "items_from rules (snd mi)" and "r \<in> set rules"
  shows "items_from rules (map snd (fst (add_rule symb r mi))) \<and> items_from rules (snd (add_rule symb r mi))"
proof -
  let ?it2 = "\<lparr>ItemLHS = LHS r, ItemRHS = RHS r, DotPos = 0\<rparr>"
  have rhs: "ItemRHS ?it2 \<in> RHS ` set rules" using assms(3) by simp
  show ?thesis
  proof (cases "LHS r = symb \<and> map_of (fst mi) (Item_String ?it2) = None")
    case False
    then have "add_rule symb r mi = mi" by (auto simp: add_rule_def Let_def)
    with assms show ?thesis by simp
  next
    case True
    then have "add_rule symb r mi = (AList.update (Item_String ?it2) ?it2 (fst mi), snd mi @ [?it2])"
      by (auto simp: add_rule_def Let_def)
    with items_from_update [OF assms(1) rhs, of "Item_String ?it2"] assms(2) rhs show ?thesis
      by (simp add: items_from_append items_from_Cons items_from_Nil)
  qed
qed

lemma fold_add_rule_from:
  assumes "items_from rules (map snd (fst mi))" and "items_from rules (snd mi)"
    and "set rs \<subseteq> set rules"
  shows "items_from rules (map snd (fst (fold (add_rule symb) rs mi))) \<and>
         items_from rules (snd (fold (add_rule symb) rs mi))"
  using assms
proof (induction rs arbitrary: mi)
  case Nil
  then show ?case by simp
next
  case (Cons r rs)
  from Cons.prems(3) have r: "r \<in> set rules" and rs: "set rs \<subseteq> set rules" by auto
  from add_rule_from [OF Cons.prems(1,2) r, of symb]
  show ?case using Cons.IH [of "add_rule symb r mi"] rs by simp
qed

lemma closeItems_loop_from:
  assumes "items_from rules (map snd m)" and "items_from rules items"
  shows "items_from rules (map snd (closeItems_loop rules m items))"
  using assms
proof (induction rules m items rule: closeItems_loop.induct)
  case (1 rules m)
  then show ?case by simp
next
  case (2 rules m it items)
  from "2.prems"(2) have items: "items_from rules items" by (simp add: items_from_Cons)
  show ?case
  proof (cases "DotPos it < length (ItemRHS it)")
    case False
    with 2 items show ?thesis by simp
  next
    case True
    let ?mi = "fold (add_rule (ItemRHS it ! DotPos it)) rules (m, items)"
    from fold_add_rule_from [of rules "(m, items)" rules "ItemRHS it ! DotPos it"] "2.prems"(1) items
    have "items_from rules (map snd (fst ?mi)) \<and> items_from rules (snd ?mi)" by simp
    with "2.IH"(1) [OF True refl] True show ?thesis by (simp add: Let_def)
  qed
qed

lemma fold_update_from:
  "items_from rules (map snd m0) \<Longrightarrow> items_from rules items \<Longrightarrow>
   items_from rules (map snd (fold (\<lambda>it m. AList.update (Item_String it) it m) items m0))"
proof (induction items arbitrary: m0)
  case Nil
  then show ?case by simp
next
  case (Cons it items)
  from Cons.prems(2) have it: "ItemRHS it \<in> RHS ` set rules" and items: "items_from rules items"
    by (simp_all add: items_from_Cons)
  from Cons.IH [OF items_from_update [OF Cons.prems(1) it] items] show ?case by simp
qed

lemma items_from_subset: "items_from rules ys \<Longrightarrow> set xs \<subseteq> set ys \<Longrightarrow> items_from rules xs"
  by (auto simp: items_from_def)

lemma closeItems_from:
  assumes "items_from rules items"
  shows "items_from rules (closeItems rng rules items)"
proof -
  let ?m0 = "fold (\<lambda>it m. AList.update (Item_String it) it m) items []"
  have "items_from rules (map snd ?m0)"
    by (rule fold_update_from [OF _ assms]) (simp add: items_from_Nil)
  from closeItems_loop_from [OF this assms] show ?thesis
    unfolding closeItems_def by (rule items_from_subset) (rule range_order_subset)
qed

lemma goto_items_from: "items_from rules (Items state) \<Longrightarrow> items_from rules (goto_items state symb)"
  by (auto simp: items_from_def goto_items_def)

lemma next_symbols_fold:
  "fst ` set (fold (\<lambda>it tr. if DotPos it < length (ItemRHS it)
                             then AList.update (ItemRHS it ! DotPos it) () tr else tr) its tr0)
   = fst ` set tr0 \<union> {ItemRHS it ! DotPos it | it. it \<in> set its \<and> DotPos it < length (ItemRHS it)}"
proof (induction its arbitrary: tr0)
  case Nil
  then show ?case by simp
next
  case (Cons it its)
  show ?case
    by (simp add: Cons dom_update) blast
qed

lemma set_next_symbols:
  "set (next_symbols st) = {ItemRHS it ! DotPos it | it. it \<in> set (Items st) \<and> DotPos it < length (ItemRHS it)}"
  using next_symbols_fold [of "Items st" "[]"] by (simp add: next_symbols_def)

lemma next_symbols_in_rules:
  assumes "items_from rules (Items st)" and "x \<in> set (next_symbols st)"
  shows "x \<in> \<Union> (set ` RHS ` set rules)"
proof -
  from assms(2) obtain it where it: "it \<in> set (Items st)" "DotPos it < length (ItemRHS it)"
    "x = ItemRHS it ! DotPos it" by (auto simp: set_next_symbols)
  from assms(1) it(1) have "ItemRHS it \<in> RHS ` set rules" by (simp add: items_from_def)
  moreover from it have "x \<in> set (ItemRHS it)" by simp
  ultimately show ?thesis by blast
qed

lemma terminal_prefix_EOF: "terminal_prefix ''_EOF''"
  by (simp add: terminal_prefix_def)

lemma transition_graph_inv:
  assumes inv: "graph_inv rules (Inr (gr, q))"
    and st: "items_from rules (Items state)"
    and sy: "symb \<in> \<Union> (set ` RHS ` set rules)"
  shows "graph_inv rules (transition rng acc state symb (Inr (gr, q)))"
proof (cases "transition rng acc state symb (Inr (gr, q))")
  case (Inl p)
  then show ?thesis by (simp add: graph_inv_def)
next
  case (Inr r)
  obtain gr' q' where r: "r = (gr', q')" by (cases r)
  from inv have R: "Rules gr = rules"
    and A: "\<forall>k a. map_of (actionTable gr) k = Some a \<longrightarrow>
             snd k \<noteq> [] \<and> terminal_prefix (snd k) \<and>
             (a = acceptAction \<or> (is_shift a \<and> snd k \<in> \<Union> (set ` RHS ` set rules)))"
    and G: "\<forall>k a. map_of (gotoTable gr) k = Some a \<longrightarrow> snd k \<noteq> [] \<and> \<not> terminal_prefix (snd k)"
    and S: "\<forall>k st. map_of (states gr) k = Some st \<longrightarrow> k = State_String st \<and> items_from rules (Items st)"
    and Q: "\<forall>st \<in> set q. items_from rules (Items st)"
    by (simp_all add: graph_inv_def)
  from transition_effect [OF Inr [unfolded r]] obtain key2 b where
    ne: "symb \<noteq> []" and R': "Rules gr' = Rules gr" and S': "states gr' = states gr"
    and A': "map_of (actionTable gr') =
         (if b then (\<lambda>m. m((key2, ''_EOF'') \<mapsto> acceptAction)) else id)
           ((if terminal_prefix symb then (\<lambda>m. m((State_String state, symb) \<mapsto> shiftAction key2)) else id)
              (map_of (actionTable gr)))"
    and G': "map_of (gotoTable gr') =
         (if terminal_prefix symb then id else (\<lambda>m. m((State_String state, symb) \<mapsto> gotoAction key2)))
           (map_of (gotoTable gr))"
    and Q': "q' = q \<or> q' = q @ [State_sorted \<lparr>Items = closeItems rng (Rules gr) (goto_items state symb)\<rparr>]"
    by blast
  have a: "\<forall>k a. map_of (actionTable gr') k = Some a \<longrightarrow>
             snd k \<noteq> [] \<and> terminal_prefix (snd k) \<and>
             (a = acceptAction \<or> (is_shift a \<and> snd k \<in> \<Union> (set ` RHS ` set rules)))"
    using A ne sy unfolding A'
    by (auto simp: terminal_prefix_EOF is_shift_def split: if_splits)
  have g: "\<forall>k a. map_of (gotoTable gr') k = Some a \<longrightarrow> snd k \<noteq> [] \<and> \<not> terminal_prefix (snd k)"
    using G ne unfolding G' by (auto split: if_splits)
  have "items_from rules (Items (State_sorted \<lparr>Items = closeItems rng (Rules gr) (goto_items state symb)\<rparr>))"
    using closeItems_from [OF goto_items_from [OF st, of symb], of rng] R
    by (simp add: items_from_sorted)
  with Q Q' have qq: "\<forall>st \<in> set q'. items_from rules (Items st)" by auto
  from a g qq S R show ?thesis
    by (simp add: Inr r graph_inv_def R' S')
qed

lemma fold_transition_graph_inv:
  assumes "graph_inv rules s" and "items_from rules (Items state)"
    and "set syms \<subseteq> \<Union> (set ` RHS ` set rules)"
  shows "graph_inv rules (fold (transition rng acc state) syms s)"
  using assms
proof (induction syms arbitrary: s)
  case Nil
  then show ?case by simp
next
  case (Cons x xs)
  have "graph_inv rules (transition rng acc state x s)"
  proof (cases s)
    case (Inl p)
    then show ?thesis by (simp add: transition_Inl graph_inv_def)
  next
    case (Inr r)
    obtain gr q where "r = (gr, q)" by (cases r)
    with Inr Cons.prems transition_graph_inv [where rules = rules and gr = gr and q = q and state = state and symb = x and rng = rng and acc = acc]
    show ?thesis by simp
  qed
  with Cons show ?case by simp
qed

lemma visit_graph_inv:
  assumes "graph_inv rules s"
  shows "graph_inv rules (visit rng acc s)"
proof (cases s)
  case (Inl p)
  then show ?thesis by (simp add: visit_def graph_inv_def)
next
  case (Inr r)
  obtain gr queue where r: "r = (gr, queue)" by (cases r)
  show ?thesis
  proof (cases queue)
    case Nil
    with assms Inr r show ?thesis by (simp add: visit_def)
  next
    case (Cons state rest)
    from assms Inr r Cons have st: "items_from rules (Items state)"
      and inv_rest: "graph_inv rules (Inr (gr, rest))"
      by (simp_all add: graph_inv_def)
    show ?thesis
    proof (cases "map_of (states gr) (State_String state) = None")
      case False
      then have "visit rng acc s = Inr (gr, rest)"
        using Inr r Cons by (auto simp: visit_def)
      with inv_rest show ?thesis by simp
    next
      case True
      let ?gr1 = "gr\<lparr>states := AList.update (State_String state) (State_sorted state) (states gr)\<rparr>"
      have inv1: "graph_inv rules (Inr (?gr1, rest))"
        using inv_rest st
        by (auto simp: graph_inv_def update_conv' State_String_sorted items_from_sorted)
      have sy: "set (range_order rng (next_symbols (State_sorted state))) \<subseteq> \<Union> (set ` RHS ` set rules)"
        using next_symbols_in_rules [of rules "State_sorted state"] st range_order_subset [of rng "next_symbols (State_sorted state)"]
        by (auto simp: items_from_sorted)
      from fold_transition_graph_inv [OF inv1 _ sy, where acc = acc] st
      show ?thesis using True Inr r Cons by (simp add: visit_def items_from_sorted)
    qed
  qed
qed

lemma build_graph_inv:
  assumes "build_graph rng rules = Some s"
  shows "graph_inv rules s"
proof (cases rules)
  case Nil
  with assms show ?thesis by (auto simp: build_graph_def graph_inv_def)
next
  case (Cons rule rs)
  let ?acc = "\<lparr>ItemLHS = LHS rule, ItemRHS = RHS rule, DotPos = length (RHS rule)\<rparr>"
  let ?items = "closeItems rng rules [\<lparr>ItemLHS = LHS rule, ItemRHS = RHS rule, DotPos = 0\<rparr>]"
  let ?gr = "\<lparr>Rules = rules, states = [], initialState = State_String \<lparr>Items = ?items\<rparr>,
                     actionTable = [], gotoTable = []\<rparr>"
  let ?s0 = "Inr (?gr, [State_sorted \<lparr>Items = ?items\<rparr>])"
  from assms Cons have w: "while_option unfinished (visit rng ?acc) ?s0 = Some s"
    by (simp add: build_graph_def Let_def)
  have "items_from rules [\<lparr>ItemLHS = LHS rule, ItemRHS = RHS rule, DotPos = 0\<rparr>]"
    using Cons by (simp add: items_from_def)
  from closeItems_from [OF this, of rng] have "graph_inv rules ?s0"
    by (simp add: graph_inv_def items_from_sorted)
  from while_option_rule [where P = "graph_inv rules", OF _ w this] visit_graph_inv
  show ?thesis by blast
qed

lemma transition_shifts:
  assumes eff: "transition rng acc s0 symb (Inr (gr, q)) = Inr (gr', q')"
    and k0: "State_String s0 = k0"
    and mid: "shifts_mid k0 s0 X (Inr (gr, q))"
  shows "shifts_mid k0 s0 (insert symb X) (Inr (gr', q'))"
proof -
  from mid have s0: "map_of (states gr) k0 = Some s0"
    and oth: "\<forall>k st. map_of (states gr) k = Some st \<longrightarrow> k \<noteq> k0 \<longrightarrow> has_shifts gr k st UNIV"
    and don: "has_shifts gr k0 s0 X"
    by (simp_all add: shifts_mid_def)
  from transition_effect [OF eff] obtain key2 b where
    S': "states gr' = states gr"
    and A': "map_of (actionTable gr') =
         (if b then (\<lambda>m. m((key2, ''_EOF'') \<mapsto> acceptAction)) else id)
           ((if terminal_prefix symb then (\<lambda>m. m((State_String s0, symb) \<mapsto> shiftAction key2)) else id)
              (map_of (actionTable gr)))"
    and B: "b \<longrightarrow> map_of (states gr) key2 = None"
    by blast
  have keep: "map_of (actionTable gr') (k, x) = Some (shiftAction p)"
    if "map_of (states gr) k = Some st" "map_of (actionTable gr) (k, x) = Some (shiftAction p)" "k \<noteq> k0 \<or> x \<noteq> symb"
    for k x st p
    using that B unfolding A' k0 by (auto split: if_splits)
  have new: "\<exists>p. map_of (actionTable gr') (k0, symb) = Some (shiftAction p)" if "terminal_prefix symb"
    using that B s0 unfolding A' k0 by (auto split: if_splits)
  have 1: "has_shifts gr' k st UNIV" if "map_of (states gr) k = Some st" "k \<noteq> k0" for k st
    unfolding has_shifts_def
  proof (intro ballI impI)
    fix it assume it: "it \<in> set (Items st)" "DotPos it < length (ItemRHS it)"
      "terminal_prefix (ItemRHS it ! DotPos it)"
    from oth that have "has_shifts gr k st UNIV" by blast
    with it obtain p where "map_of (actionTable gr) (k, ItemRHS it ! DotPos it) = Some (shiftAction p)"
      unfolding has_shifts_def by blast
    from keep [OF that(1) this] that(2)
    show "\<exists>q. map_of (actionTable gr') (k, ItemRHS it ! DotPos it) = Some (shiftAction q)" by blast
  qed
  have 2: "has_shifts gr' k0 s0 (insert symb X)"
    unfolding has_shifts_def
  proof (intro ballI impI)
    fix it assume it: "it \<in> set (Items s0)" "DotPos it < length (ItemRHS it)"
      "terminal_prefix (ItemRHS it ! DotPos it)" "ItemRHS it ! DotPos it \<in> insert symb X"
    show "\<exists>q. map_of (actionTable gr') (k0, ItemRHS it ! DotPos it) = Some (shiftAction q)"
    proof (cases "ItemRHS it ! DotPos it = symb")
      case True
      with new it(3) show ?thesis by simp
    next
      case False
      with it have "ItemRHS it ! DotPos it \<in> X" by simp
      with don it obtain p where "map_of (actionTable gr) (k0, ItemRHS it ! DotPos it) = Some (shiftAction p)"
        unfolding has_shifts_def by blast
      from keep [OF s0 this] False show ?thesis by blast
    qed
  qed
  from 1 2 s0 show ?thesis by (simp add: shifts_mid_def S')
qed

lemma fold_transition_shifts:
  assumes "State_String s0 = k0" and "shifts_mid k0 s0 X s"
  shows "shifts_mid k0 s0 (X \<union> set syms) (fold (transition rng acc s0) syms s)"
  using assms(2)
proof (induction syms arbitrary: s X)
  case Nil
  then show ?case by simp
next
  case (Cons x xs)
  have "shifts_mid k0 s0 (insert x X) (transition rng acc s0 x s)"
  proof (cases s)
    case (Inl p)
    then show ?thesis by (simp add: transition_Inl shifts_mid_def)
  next
    case (Inr r)
    obtain gr q where r: "r = (gr, q)" by (cases r)
    show ?thesis
    proof (cases "transition rng acc s0 x s")
      case (Inl p)
      then show ?thesis by (simp add: shifts_mid_def)
    next
      case res: (Inr r')
      obtain gr' q' where r': "r' = (gr', q')" by (cases r')
      from Cons.prems have "shifts_mid k0 s0 X (Inr (gr, q))" by (simp add: Inr r)
      from transition_shifts [OF res [unfolded Inr r r'] assms(1) this]
      show ?thesis by (simp add: res r')
    qed
  qed
  from Cons.IH [OF this] show ?case by simp
qed

lemma has_shifts_UNIV:
  assumes "has_shifts gr k st (set (next_symbols st))"
  shows "has_shifts gr k st UNIV"
  using assms unfolding has_shifts_def set_next_symbols by blast

lemma visit_shifts_inv:
  assumes ord: "is_order rng" and inv: "shifts_inv s"
  shows "shifts_inv (visit rng acc s)"
proof (cases s)
  case (Inl p)
  then show ?thesis by (simp add: visit_def shifts_inv_def)
next
  case (Inr r)
  obtain gr queue where r: "r = (gr, queue)" by (cases r)
  from inv Inr r have all: "\<forall>k st. map_of (states gr) k = Some st \<longrightarrow> has_shifts gr k st UNIV"
    by (simp add: shifts_inv_def)
  show ?thesis
  proof (cases queue)
    case Nil
    with inv Inr r show ?thesis by (simp add: visit_def)
  next
    case (Cons state rest)
    show ?thesis
    proof (cases "map_of (states gr) (State_String state) = None")
      case False
      then have "visit rng acc s = Inr (gr, rest)"
        using Inr r Cons by (auto simp: visit_def)
      with all show ?thesis by (simp add: shifts_inv_def)
    next
      case True
      let ?k0 = "State_String state"
      let ?s0 = "State_sorted state"
      let ?gr1 = "gr\<lparr>states := AList.update ?k0 ?s0 (states gr)\<rparr>"
      let ?syms = "range_order rng (next_symbols ?s0)"
      let ?res = "fold (transition rng acc ?s0) ?syms (Inr (?gr1, rest))"
      from True have v: "visit rng acc s = ?res"
        using Inr r Cons by (simp add: visit_def)
      have "has_shifts ?gr1 k st UNIV" if "map_of (states gr) k = Some st" for k st
        using all that by (simp add: has_shifts_def)
      then have mid: "shifts_mid ?k0 ?s0 {} (Inr (?gr1, rest))"
        by (simp add: shifts_mid_def update_conv' has_shifts_def)
      from fold_transition_shifts [OF State_String_sorted mid, of ?syms rng acc]
      have fin: "shifts_mid ?k0 ?s0 (set (next_symbols ?s0)) ?res"
        by (simp add: range_order_set [OF ord])
      show ?thesis
      proof (cases ?res)
        case (Inl p)
        with v show ?thesis by (simp add: shifts_inv_def)
      next
        case res: (Inr r')
        obtain gr' q' where r': "r' = (gr', q')" by (cases r')
        from fin res r' have a: "map_of (states gr') ?k0 = Some ?s0"
          and b: "\<forall>k st. map_of (states gr') k = Some st \<longrightarrow> k \<noteq> ?k0 \<longrightarrow> has_shifts gr' k st UNIV"
          and c: "has_shifts gr' ?k0 ?s0 (set (next_symbols ?s0))"
          by (simp_all add: shifts_mid_def)
        have "has_shifts gr' k st UNIV" if "map_of (states gr') k = Some st" for k st
        proof (cases "k = ?k0")
          case True
          with that a have "st = ?s0" by simp
          with True has_shifts_UNIV [OF c] show ?thesis by simp
        next
          case False
          with b that show ?thesis by blast
        qed
        then show ?thesis by (simp add: v res r' shifts_inv_def)
      qed
    qed
  qed
qed

lemma build_graph_shifts:
  assumes "is_order rng" and "build_graph rng rules = Some s"
  shows "shifts_inv s"
proof (cases rules)
  case Nil
  with assms show ?thesis by (auto simp: build_graph_def shifts_inv_def)
next
  case (Cons rule rs)
  let ?acc = "\<lparr>ItemLHS = LHS rule, ItemRHS = RHS rule, DotPos = length (RHS rule)\<rparr>"
  let ?items = "closeItems rng rules [\<lparr>ItemLHS = LHS rule, ItemRHS = RHS rule, DotPos = 0\<rparr>]"
  let ?gr = "\<lparr>Rules = rules, states = [], initialState = State_String \<lparr>Items = ?items\<rparr>,
                     actionTable = [], gotoTable = []\<rparr>"
  let ?s0 = "Inr (?gr, [State_sorted \<lparr>Items = ?items\<rparr>])"
  from assms Cons have w: "while_option unfinished (visit rng ?acc) ?s0 = Some s"
    by (simp add: build_graph_def Let_def)
  have "shifts_inv ?s0" by (simp add: shifts_inv_def)
  from while_option_rule [where P = shifts_inv, OF _ w this] visit_shifts_inv [OF assms(1)]
  show ?thesis by blast
qed

lemma BuildItems_Inr:
  assumes "BuildItems rng rules = Some (Inr g)"
  shows "\<exists>gr queue. build_graph rng rules = Some (Inr (gr, queue)) \<and>
           fill_reduces rng gr = Inr (actionTable g) \<and> g = gr\<lparr>actionTable := actionTable g\<rparr>"
  using assms
  by (auto simp: BuildItems_def split: option.splits sum.splits prod.splits)

lemma terminals_fold:
  "fst ` set (fold (\<lambda>key t. AList.update (snd key) () t) ks t0) = fst ` set t0 \<union> snd ` set ks"
  by (induction ks arbitrary: t0) (auto simp: dom_update)

lemma terminals_of_subset: "set (terminals_of rng tbl) \<subseteq> columns tbl"
  using terminals_fold [of "range_order rng (map fst tbl)" "[]"] range_order_subset [of rng "map fst tbl"]
  by (auto simp: terminals_of_def columns_def)

lemma terminals_of_columns: "is_order rng \<Longrightarrow> set (terminals_of rng tbl) = columns tbl"
  using terminals_fold [of "range_order rng (map fst tbl)" "[]"]
  by (simp add: terminals_of_def columns_def range_order_set image_image)

lemma columns_iff: "c \<in> columns tbl \<longleftrightarrow> (\<exists>k a. map_of tbl (k, c) = Some a)"
proof
  assume "c \<in> columns tbl"
  then obtain k a where "((k, c), a) \<in> set tbl" by (auto simp: columns_def)
  then have "(k, c) \<in> fst ` set tbl" by force
  then have "map_of tbl (k, c) \<noteq> None" by (simp add: map_of_eq_None_iff)
  then show "\<exists>k a. map_of tbl (k, c) = Some a" by blast
next
  assume "\<exists>k a. map_of tbl (k, c) = Some a"
  then obtain k a where "map_of tbl (k, c) = Some a" by blast
  then have "((k, c), a) \<in> set tbl" by (rule map_of_SomeD)
  then show "c \<in> columns tbl" by (force simp: columns_def)
qed

lemma BuildItems_fills:
  assumes "BuildItems rng rules = Some (Inr g)"
  shows "\<exists>gr queue. build_graph rng rules = Some (Inr (gr, queue)) \<and>
           g = gr\<lparr>actionTable := actionTable g\<rparr> \<and>
           fill_reduces rng gr = Inr (actionTable g) \<and>
           fills (columns (actionTable gr)) (actionTable gr) (actionTable g)"
proof -
  from BuildItems_Inr [OF assms] obtain gr queue where
    b: "build_graph rng rules = Some (Inr (gr, queue))"
    and f: "fill_reduces rng gr = Inr (actionTable g)" and g: "g = gr\<lparr>actionTable := actionTable g\<rparr>"
    by blast
  from fills_mono [OF fill_reduces_fills [OF f] terminals_of_subset] b f g show ?thesis by blast
qed

lemma graph_inv_action:
  "graph_inv rules (Inr (gr, q)) \<Longrightarrow> map_of (actionTable gr) (k, c) = Some a \<Longrightarrow>
   c \<noteq> [] \<and> terminal_prefix c \<and> (a = acceptAction \<or> (is_shift a \<and> c \<in> \<Union> (set ` RHS ` set rules)))"
  unfolding graph_inv_def by fastforce

lemma graph_inv_goto:
  "graph_inv rules (Inr (gr, q)) \<Longrightarrow> map_of (gotoTable gr) (k, c) = Some a \<Longrightarrow>
   c \<noteq> [] \<and> \<not> terminal_prefix c"
  unfolding graph_inv_def by fastforce

lemma graph_inv_states:
  "graph_inv rules (Inr (gr, q)) \<Longrightarrow> map_of (states gr) k = Some st \<Longrightarrow>
   k = State_String st \<and> items_from rules (Items st)"
  unfolding graph_inv_def by fastforce

lemma graph_inv_Rules: "graph_inv rules (Inr (gr, q)) \<Longrightarrow> Rules gr = rules"
  unfolding graph_inv_def by simp

text \<open>
  C4. In a grammar built by BuildItems, when a state has an item with the dot before a
  terminal \<open>t\<close>, so that the state admits a shift on \<open>t\<close>, the entry of the action
  table for that state and \<open>t\<close> is a shift, whatever complete items the state has
  besides. And the second half of BuildItems only fills: every entry that the work-list
  loop made is still there, and every other entry is a reduce action in a cell that the
  loop had left empty.
\<close>

theorem BuildItems_shift_precedence:
  assumes built: "BuildItems rng rules = Some (Inr g)" and ord: "is_order rng"
    and st: "map_of (states g) k = Some st"
    and it: "it \<in> set (Items st)" "DotPos it < length (ItemRHS it)"
    and t: "terminal_prefix (ItemRHS it ! DotPos it)"
  shows "(\<exists>q. map_of (actionTable g) (k, ItemRHS it ! DotPos it) = Some (shiftAction q)) \<and>
         (\<exists>gr queue. build_graph rng rules = Some (Inr (gr, queue)) \<and>
            fills (columns (actionTable gr)) (actionTable gr) (actionTable g))"
proof -
  from BuildItems_fills [OF built] obtain gr queue where
    b: "build_graph rng rules = Some (Inr (gr, queue))"
    and g: "g = gr\<lparr>actionTable := actionTable g\<rparr>"
    and f: "fills (columns (actionTable gr)) (actionTable gr) (actionTable g)"
    by blast
  from g have sg: "states g = states gr" by (metis Grammar.select_convs(2) Grammar.surjective Grammar.update_convs(4))
  from build_graph_shifts [OF ord b] st sg have "has_shifts gr k st UNIV"
    by (simp add: shifts_inv_def)
  with it t obtain q where "map_of (actionTable gr) (k, ItemRHS it ! DotPos it) = Some (shiftAction q)"
    unfolding has_shifts_def by blast
  from fills_keeps [OF f this] b f show ?thesis by blast
qed

text \<open>
  C6. In a grammar built by BuildItems, no pair of a state and a symbol has an entry in the
  action table and in the goto table both. The column of an entry of the action table
  starts with \<open>_\<close> or \<open>&\<close>; the column of an entry of the goto table is not empty and
  starts with neither. A pair may have no entry in either table.
\<close>

theorem BuildItems_tables_disjoint:
  assumes built: "BuildItems rng rules = Some (Inr g)"
  shows "\<not> (map_of (actionTable g) (s, c) \<noteq> None \<and> map_of (gotoTable g) (s, c) \<noteq> None) \<and>
         (map_of (actionTable g) (s, c) \<noteq> None \<longrightarrow> c \<noteq> [] \<and> terminal_prefix c) \<and>
         (map_of (gotoTable g) (s, c) \<noteq> None \<longrightarrow> c \<noteq> [] \<and> \<not> terminal_prefix c)"
proof -
  from BuildItems_fills [OF built] obtain gr queue where
    b: "build_graph rng rules = Some (Inr (gr, queue))"
    and g: "g = gr\<lparr>actionTable := actionTable g\<rparr>"
    and f: "fills (columns (actionTable gr)) (actionTable gr) (actionTable g)"
    by blast
  from g have gg: "gotoTable g = gotoTable gr" by (metis Grammar.select_convs(5) Grammar.surjective Grammar.update_convs(4))
  note inv = build_graph_inv [OF b]
  have a: "c \<noteq> [] \<and> terminal_prefix c" if "map_of (actionTable g) (s, c) \<noteq> None"
  proof -
    from that obtain x where x: "map_of (actionTable g) (s, c) = Some x" by blast
    from fills_new [OF f x] have "map_of (actionTable gr) (s, c) = Some x \<or> c \<in> columns (actionTable gr)"
      by auto
    then have "c \<in> columns (actionTable gr)" by (auto simp: columns_iff)
    then obtain k y where "map_of (actionTable gr) (k, c) = Some y" by (auto simp: columns_iff)
    from graph_inv_action [OF inv this] show ?thesis by simp
  qed
  have b: "c \<noteq> [] \<and> \<not> terminal_prefix c" if "map_of (gotoTable g) (s, c) \<noteq> None"
  proof -
    from that gg obtain x where "map_of (gotoTable gr) (s, c) = Some x" by auto
    from graph_inv_goto [OF inv this] show ?thesis .
  qed
  from a b show ?thesis by blast
qed

lemma fills_columns:
  assumes "fills (columns t1) t1 t2"
  shows "columns t2 = columns t1"
proof
  show "columns t2 \<subseteq> columns t1"
  proof
    fix c assume "c \<in> columns t2"
    then obtain k a where x: "map_of t2 (k, c) = Some a" by (auto simp: columns_iff)
    from fills_new [OF assms x] show "c \<in> columns t1" by (auto simp: columns_iff)
  qed
  show "columns t1 \<subseteq> columns t2"
  proof
    fix c assume "c \<in> columns t1"
    then obtain k a where x: "map_of t1 (k, c) = Some a" by (auto simp: columns_iff)
    from fills_keeps [OF assms x] show "c \<in> columns t2" by (auto simp: columns_iff)
  qed
qed

lemma BuildItems_reduce_cell:
  assumes built: "BuildItems rng rules = Some (Inr g)" and ord: "is_order rng"
    and st: "map_of (states g) k = Some st"
    and i: "0 < i" "i < length rules"
    and it2: "it2 \<in> set (Items st)" "Item_String (completed (rules ! i)) = Item_String it2"
    and t: "t \<in> columns (actionTable g)"
  shows "(\<exists>q. map_of (actionTable g) (k, t) = Some (shiftAction q)) \<or>
         map_of (actionTable g) (k, t) = Some (reduceAction i)"
proof -
  from BuildItems_fills [OF built] obtain gr queue where
    b: "build_graph rng rules = Some (Inr (gr, queue))"
    and g: "g = gr\<lparr>actionTable := actionTable g\<rparr>"
    and fr: "fill_reduces rng gr = Inr (actionTable g)"
    and f: "fills (columns (actionTable gr)) (actionTable gr) (actionTable g)"
    by blast
  note inv = build_graph_inv [OF b]
  from g have sg: "states g = states gr" by (metis Grammar.select_convs(2) Grammar.surjective Grammar.update_convs(4))
  from graph_inv_Rules [OF inv] have R: "Rules gr = rules" .
  from st sg graph_inv_states [OF inv] have k: "k = State_String st" by simp
  from st sg have "(k, st) \<in> set (states gr)" by (simp add: map_of_SomeD)
  then have "st \<in> set (map snd (states gr))" by force
  then have st': "st \<in> set (range_order rng (map snd (states gr)))"
    by (simp add: range_order_set [OF ord])
  from t fills_columns [OF f] have "t \<in> columns (actionTable gr)" by simp
  then have t': "t \<in> set (range_order rng (terminals_of rng (actionTable gr)))"
    by (simp add: range_order_set [OF ord] terminals_of_columns [OF ord])
  from fill_reduces_cell [OF fr st' i(1) _ it2(1) _ t'] i(2) it2(2) R k
  show ?thesis by simp
qed

lemma fold_panic:
  assumes inl: "\<forall>x p. f x (Inl p) = Inl p"
    and step: "\<forall>x t p. f x (Inr t) = Inl p \<longrightarrow> Q p"
  shows "fold f xs (Inr t) = Inl p \<Longrightarrow> Q p"
proof (induction xs arbitrary: t)
  case Nil
  then show ?case by simp
next
  case (Cons x xs)
  show ?case
  proof (cases "f x (Inr t)")
    case (Inl q)
    with Cons.prems fold_Inl [OF inl, of xs q] have "q = p" by simp
    with Inl step show ?thesis by blast
  next
    case (Inr t')
    with Cons.prems have "fold f xs (Inr t') = Inl p" by simp
    then show ?thesis by (rule Cons.IH)
  qed
qed

lemma fill_terminal_panic: "fill_terminal row i t (Inr tbl) = Inl p \<Longrightarrow> is_conflict p"
  by (auto simp: fill_terminal_def is_conflict_def is_shift_def split: option.splits action.splits)

lemma fill_item_panic:
  assumes "fill_item rng terminals state i it it2 (Inr t) = Inl p"
  shows "is_conflict p"
proof (cases "Item_String it = Item_String it2")
  case False
  with assms show ?thesis by (simp add: fill_item_def)
next
  case True
  with assms have "fold (fill_terminal (State_String state) i) (range_order rng terminals) (Inr t) = Inl p"
    by (simp add: fill_item_def)
  then show ?thesis
    by (rule fold_panic [rotated 2]) (simp_all add: fill_terminal_Inl fill_terminal_panic)
qed

lemma fill_rule_panic:
  assumes "fill_rule rng terminals state ir (Inr t) = Inl p"
  shows "is_conflict p"
proof (cases "0 < fst ir")
  case False
  with assms show ?thesis by (simp add: fill_rule_def)
next
  case True
  with assms have "fold (fill_item rng terminals state (fst ir)
                   \<lparr>ItemLHS = LHS (snd ir), ItemRHS = RHS (snd ir), DotPos = length (RHS (snd ir))\<rparr>)
                (Items state) (Inr t) = Inl p"
    by (simp add: fill_rule_def)
  then show ?thesis
    by (rule fold_panic [rotated 2]) (simp_all add: fill_item_Inl fill_item_panic)
qed

lemma fill_state_panic:
  assumes "fill_state rng terminals rules state (Inr t) = Inl p"
  shows "is_conflict p"
  using assms unfolding fill_state_def
  by (rule fold_panic [rotated 2]) (simp_all add: fill_rule_Inl fill_rule_panic)

lemma fill_reduces_panic:
  assumes "fill_reduces rng gr = Inl p"
  shows "is_conflict p"
  using assms unfolding fill_reduces_def
  by (rule fold_panic [rotated 2]) (simp_all add: fill_state_Inl fill_state_panic)

lemma BuildItems_after_graph:
  assumes "build_graph rng rules = Some (Inr (gr, queue))"
  shows "(\<exists>p. is_conflict p \<and> BuildItems rng rules = Some (Inl p)) \<or>
         (\<exists>tbl. BuildItems rng rules = Some (Inr (gr\<lparr>actionTable := tbl\<rparr>)))"
proof (cases "fill_reduces rng gr")
  case (Inl p)
  with assms fill_reduces_panic [OF Inl] show ?thesis by (simp add: BuildItems_def)
next
  case (Inr tbl)
  with assms have "BuildItems rng rules = Some (Inr (gr\<lparr>actionTable := tbl\<rparr>))"
    by (simp add: BuildItems_def)
  then show ?thesis by blast
qed

text \<open>
  C5. When the cell that is to receive a reduce action holds an action that is not a shift,
  \<open>fill_terminal\<close> panics with the conflict. Hence, when the work-list loop of BuildItems
  has ended without a panic, and a state has the complete items of two different rules
  \<open>i\<close> and \<open>j\<close>, neither the start rule, and its row has no shift in a column \<open>t\<close> of
  the action table, BuildItems panics with a conflict and builds no grammar: neither of
  the two reduce actions is kept in silence.
\<close>

theorem BuildItems_reduce_conflict_panics:
  assumes graph: "build_graph rng rules = Some (Inr (gr, queue))" and ord: "is_order rng"
    and st: "map_of (states gr) k = Some st"
    and i: "0 < i" "i < length rules" and j: "0 < j" "j < length rules" and ij: "i \<noteq> j"
    and it_i: "it_i \<in> set (Items st)" "Item_String (completed (rules ! i)) = Item_String it_i"
    and it_j: "it_j \<in> set (Items st)" "Item_String (completed (rules ! j)) = Item_String it_j"
    and t: "t \<in> columns (actionTable gr)"
    and free: "\<forall>q. map_of (actionTable gr) (k, t) \<noteq> Some (shiftAction q)"
  shows "(\<forall>tbl row n a. map_of tbl (row, t) = Some a \<longrightarrow> \<not> is_shift a \<longrightarrow>
            fill_terminal row n t (Inr tbl) = Inl (Conflict t a)) \<and>
         (\<exists>t' a. \<not> is_shift a \<and> BuildItems rng rules = Some (Inl (Conflict t' a)))"
proof -
  have "\<not> (\<exists>tbl. BuildItems rng rules = Some (Inr (gr\<lparr>actionTable := tbl\<rparr>)))"
  proof
    assume "\<exists>tbl. BuildItems rng rules = Some (Inr (gr\<lparr>actionTable := tbl\<rparr>))"
    then obtain tbl where built: "BuildItems rng rules = Some (Inr (gr\<lparr>actionTable := tbl\<rparr>))" by blast
    let ?g = "gr\<lparr>actionTable := tbl\<rparr>"
    from BuildItems_fills [OF built] graph
    have f: "fills (columns (actionTable gr)) (actionTable gr) tbl" by auto
    have st': "map_of (states ?g) k = Some st" using st by simp
    from t fills_columns [OF f] have t': "t \<in> columns (actionTable ?g)" by simp
    from BuildItems_reduce_cell [OF built ord st' i it_i t']
    have ci: "(\<exists>q. map_of tbl (k, t) = Some (shiftAction q)) \<or> map_of tbl (k, t) = Some (reduceAction i)"
      by simp
    from BuildItems_reduce_cell [OF built ord st' j it_j t']
    have cj: "(\<exists>q. map_of tbl (k, t) = Some (shiftAction q)) \<or> map_of tbl (k, t) = Some (reduceAction j)"
      by simp
    have "\<not> (\<exists>q. map_of tbl (k, t) = Some (shiftAction q))"
    proof
      assume "\<exists>q. map_of tbl (k, t) = Some (shiftAction q)"
      then obtain q where q: "map_of tbl (k, t) = Some (shiftAction q)" by blast
      from fills_new [OF f q] have "map_of (actionTable gr) (k, t) = Some (shiftAction q)" by auto
      with free show False by simp
    qed
    with ci cj ij show False by simp
  qed
  with BuildItems_after_graph [OF graph]
  obtain p where p: "is_conflict p" "BuildItems rng rules = Some (Inl p)" by blast
  from p(1) obtain t' a where "p = Conflict t' a" "\<not> is_shift a"
    by (cases p) (simp_all add: is_conflict_def)
  with p(2) have "\<exists>t' a. \<not> is_shift a \<and> BuildItems rng rules = Some (Inl (Conflict t' a))" by blast
  then show ?thesis using fill_terminal_conflict by blast
qed

section \<open>The loop of Parse\<close>

lemma Parse_loop_configs:
  assumes "Parse_loop rng fmtLoc L gr terminals keywords cfg = Some y"
  shows "\<exists>n. Parse_configs rng fmtLoc L gr terminals keywords n cfg = Some (snd y) \<and>
             Parse_step rng fmtLoc L gr terminals keywords (snd y) = Stop (fst y)"
proof (rule Parse_loop.raw_induct
    [where P = "\<lambda>rng fmtLoc L gr terminals keywords cfg y.
        \<exists>n. Parse_configs rng fmtLoc L gr terminals keywords n cfg = Some (snd y) \<and>
            Parse_step rng fmtLoc L gr terminals keywords (snd y) = Stop (fst y)", OF _ assms])
  fix loop :: "(nat \<Rightarrow> nat list) \<Rightarrow> (Location \<Rightarrow> string) \<Rightarrow> 'a Located \<Rightarrow> 'a val Grammar \<Rightarrow> string list \<Rightarrow> string list
     \<Rightarrow> 'a config \<Rightarrow> ('a outcome \<times> 'a config) option"
  fix rng fmtLoc L gr terminals kws cfg y
  assume IH: "\<And>rng fmtLoc L gr terminals kws cfg y. loop rng fmtLoc L gr terminals kws cfg = Some y \<Longrightarrow>
      \<exists>n. Parse_configs rng fmtLoc L gr terminals kws n cfg = Some (snd y) \<and>
          Parse_step rng fmtLoc L gr terminals kws (snd y) = Stop (fst y)"
    and eq: "(case Parse_step rng fmtLoc L gr terminals kws cfg of
        Continue cfg' \<Rightarrow> loop rng fmtLoc L gr terminals kws cfg'
      | Stop out \<Rightarrow> Some (out, cfg)) = Some y"
  show "\<exists>n. Parse_configs rng fmtLoc L gr terminals kws n cfg = Some (snd y) \<and>
            Parse_step rng fmtLoc L gr terminals kws (snd y) = Stop (fst y)"
  proof (cases "Parse_step rng fmtLoc L gr terminals kws cfg")
    case (Stop out)
    with eq have "y = (out, cfg)" by simp
    with Stop have "Parse_configs rng fmtLoc L gr terminals kws 0 cfg = Some (snd y) \<and>
             Parse_step rng fmtLoc L gr terminals kws (snd y) = Stop (fst y)" by simp
    then show ?thesis by (rule exI)
  next
    case (Continue cfg')
    with eq have "loop rng fmtLoc L gr terminals kws cfg' = Some y" by simp
    from IH [OF this] obtain n where
      n: "Parse_configs rng fmtLoc L gr terminals kws n cfg' = Some (snd y)"
      and s: "Parse_step rng fmtLoc L gr terminals kws (snd y) = Stop (fst y)" by blast
    from n Continue have "Parse_configs rng fmtLoc L gr terminals kws (Suc n) cfg = Some (snd y)" by simp
    with s show ?thesis by blast
  qed
qed

lemma Parse_configs_invariant:
  assumes step: "\<And>cfg cfg'. I cfg \<Longrightarrow>
      Parse_step rng fmtLoc L gr terminals keywords cfg = Continue cfg' \<Longrightarrow> I cfg'"
  shows "I cfg \<Longrightarrow> Parse_configs rng fmtLoc L gr terminals keywords n cfg = Some cfg' \<Longrightarrow> I cfg'"
proof (induction n arbitrary: cfg)
  case 0
  then show ?case by simp
next
  case (Suc n)
  from Suc.prems(2) obtain c where c: "Parse_step rng fmtLoc L gr terminals keywords cfg = Continue c"
    and r: "Parse_configs rng fmtLoc L gr terminals keywords n c = Some cfg'"
    by (auto split: step.splits)
  from Suc.IH [OF step [OF Suc.prems(1) c] r] show ?case .
qed

lemma reduce_Continue:
  assumes "reduce L gr i (tokens, ss, rs) = Continue c"
  shows "\<exists>st r. i < length (Rules gr) \<and> length (RHS (Rules gr ! i)) \<le> length rs \<and>
           length (RHS (Rules gr ! i)) \<le> length ss \<and>
           c = (tokens, take (length ss - length (RHS (Rules gr ! i))) ss @ [st],
                        take (length rs - length (RHS (Rules gr ! i))) rs @ [r])"
proof -
  let ?rule = "Rules gr ! i"
  let ?n = "length (RHS ?rule)"
  let ?results = "drop (length rs - ?n) rs"
  let ?ss1 = "take (length ss - ?n) ss"
  have i: "i < length (Rules gr)"
    using assms by (cases "length (Rules gr) \<le> i") (simp_all add: reduce_def)
  have n1: "?n \<le> length rs"
    using assms i by (cases "length rs < ?n") (simp_all add: reduce_def Let_def)
  have n2: "?n \<le> length ss"
    using assms i n1 by (cases "length ss < ?n") (simp_all add: reduce_def Let_def)
  from i n1 n2 have red: "reduce L gr i (tokens, ss, rs) =
    (case Conv ?rule ?results of
       Inl p \<Rightarrow> Stop (Panicked p)
     | Inr r \<Rightarrow>
        if ?ss1 = [] then Stop (Panicked (IndexOutOfRange ''stateStack[len(stateStack)-1]''))
        else (case map_of (gotoTable gr) (last ?ss1, LHS ?rule) of
                Some nextState \<Rightarrow>
                  (case nextState of
                     gotoAction st \<Rightarrow> Continue (tokens, ?ss1 @ [st], take (length rs - ?n) rs @ [setloc L r ?results])
                   | _ \<Rightarrow> Stop (Panicked TypeAssertionFailed))
              | None \<Rightarrow> Stop (Panicked CantReduce)))"
    by (simp add: reduce_def Let_def split: sum.split)
  obtain r where r: "Conv ?rule ?results = Inr r"
    using assms unfolding red by (cases "Conv ?rule ?results") simp_all
  have ne: "?ss1 \<noteq> []"
    using assms unfolding red r by (cases "?ss1 = []") simp_all
  obtain a where a: "map_of (gotoTable gr) (last ?ss1, LHS ?rule) = Some a"
    using assms ne unfolding red r by (cases "map_of (gotoTable gr) (last ?ss1, LHS ?rule)") simp_all
  obtain st where st: "a = gotoAction st"
    using assms ne unfolding red r a by (cases a) simp_all
  from assms ne have "c = (tokens, ?ss1 @ [st], take (length rs - ?n) rs @ [setloc L r ?results])"
    unfolding red r a st by simp
  with i n1 n2 show ?thesis by blast
qed

lemma reduce_Stop:
  assumes "reduce L gr i (tokens, ss, rs) = Stop out"
  shows "\<exists>p. out = Panicked p"
proof -
  let ?rule = "Rules gr ! i"
  let ?n = "length (RHS ?rule)"
  let ?results = "drop (length rs - ?n) rs"
  let ?ss1 = "take (length ss - ?n) ss"
  show ?thesis
  proof (cases "length (Rules gr) \<le> i")
    case True
    with assms show ?thesis by (auto simp: reduce_def)
  next
    case i: False
    show ?thesis
    proof (cases "length rs < ?n")
      case True
      with assms i show ?thesis by (auto simp: reduce_def Let_def)
    next
      case n1: False
      show ?thesis
      proof (cases "length ss < ?n")
        case True
        with assms i n1 show ?thesis by (auto simp: reduce_def Let_def)
      next
        case n2: False
        from i n1 n2 have red: "reduce L gr i (tokens, ss, rs) =
          (case Conv ?rule ?results of
             Inl p \<Rightarrow> Stop (Panicked p)
           | Inr r \<Rightarrow>
              if ?ss1 = [] then Stop (Panicked (IndexOutOfRange ''stateStack[len(stateStack)-1]''))
              else (case map_of (gotoTable gr) (last ?ss1, LHS ?rule) of
                      Some nextState \<Rightarrow>
                        (case nextState of
                           gotoAction st \<Rightarrow> Continue (tokens, ?ss1 @ [st], take (length rs - ?n) rs @ [setloc L r ?results])
                         | _ \<Rightarrow> Stop (Panicked TypeAssertionFailed))
                    | None \<Rightarrow> Stop (Panicked CantReduce)))"
          by (simp add: reduce_def Let_def split: sum.split)
        show ?thesis
        proof (cases "Conv ?rule ?results")
          case (Inl p)
          with assms show ?thesis unfolding red by auto
        next
          case (Inr r)
          show ?thesis
          proof (cases "?ss1 = []")
            case True
            with assms show ?thesis unfolding red Inr by auto
          next
            case ne: False
            show ?thesis
            proof (cases "map_of (gotoTable gr) (last ?ss1, LHS ?rule)")
              case None
              with assms ne show ?thesis unfolding red Inr by auto
            next
              case (Some a)
              with assms ne show ?thesis unfolding red Inr by (cases a) auto
            qed
          qed
        qed
      qed
    qed
  qed
qed

lemma Parse_step_Continue:
  assumes "Parse_step rng fmtLoc L gr terminals keywords (tokens, ss, rs) = Continue c"
  shows "tokens \<noteq> [] \<and> ss \<noteq> [] \<and>
    ((\<exists>st. map_of (actionTable gr) (last ss, symbol_of keywords (hd tokens)) = Some (shiftAction st) \<and>
           c = (tl tokens, ss @ [st], rs @ [TokenVal (hd tokens)])) \<or>
     (\<exists>i. map_of (actionTable gr) (last ss, symbol_of keywords (hd tokens)) = Some (reduceAction i) \<and>
           reduce L gr i (tokens, ss, rs) = Continue c))"
proof (cases tokens)
  case Nil
  with assms show ?thesis by (simp add: Parse_step_def)
next
  case (Cons token rest)
  show ?thesis
  proof (cases "ss = []")
    case True
    with assms Cons show ?thesis by (simp add: Parse_step_def)
  next
    case ne: False
    show ?thesis
    proof (cases "map_of (actionTable gr) (last ss, symbol_of keywords token)")
      case None
      with assms Cons ne show ?thesis by (simp add: Parse_step_def Let_def)
    next
      case (Some a)
      with assms Cons ne show ?thesis
        by (cases a) (simp_all add: Parse_step_def Let_def split: list.splits)
    qed
  qed
qed

lemma Parse_step_stacks:
  assumes "Parse_step rng fmtLoc L gr terminals keywords (tokens, ss, rs) = Continue (tokens', ss', rs')"
    and "length ss = length rs + 1"
  shows "length ss' = length rs' + 1"
proof -
  from Parse_step_Continue [OF assms(1)]
  consider (shift) st where "(tokens', ss', rs') = (tl tokens, ss @ [st], rs @ [TokenVal (hd tokens)])"
    | (reduce) i where "reduce L gr i (tokens, ss, rs) = Continue (tokens', ss', rs')"
    by blast
  then show ?thesis
  proof cases
    case shift
    with assms(2) show ?thesis by simp
  next
    case reduce
    from reduce_Continue [OF this] assms(2) show ?thesis by auto
  qed
qed

lemma no_action_not_Returned: "no_action rng fmtLoc tbl terminals currentState token \<noteq> Returned v"
  by (simp add: no_action_def error_of_def split: sum.split)

lemma Parse_step_Returned:
  assumes "Parse_step rng fmtLoc L gr terminals keywords (tokens, ss, rs) = Stop (Returned v)"
  shows "tokens \<noteq> [] \<and> ss \<noteq> [] \<and> rs \<noteq> [] \<and> v = rs ! 0 \<and>
         map_of (actionTable gr) (last ss, symbol_of keywords (hd tokens)) = Some acceptAction"
proof (cases tokens)
  case Nil
  with assms show ?thesis by (simp add: Parse_step_def)
next
  case (Cons token rest)
  show ?thesis
  proof (cases "ss = []")
    case True
    with assms Cons show ?thesis by (simp add: Parse_step_def)
  next
    case ne: False
    show ?thesis
    proof (cases "map_of (actionTable gr) (last ss, symbol_of keywords token)")
      case None
      with assms Cons ne show ?thesis
        by (simp add: Parse_step_def Let_def no_action_not_Returned)
    next
      case (Some a)
      show ?thesis
      proof (cases a)
        case (shiftAction q)
        with Some assms Cons ne show ?thesis by (simp add: Parse_step_def Let_def)
      next
        case (reduceAction i)
        with Some assms Cons ne have "reduce L gr i (tokens, ss, rs) = Stop (Returned v)"
          by (simp add: Parse_step_def Let_def)
        from reduce_Stop [OF this] show ?thesis by simp
      next
        case acceptAction
        with Some assms Cons ne show ?thesis
          by (cases rs) (simp_all add: Parse_step_def Let_def)
      next
        case (gotoAction q)
        with Some assms Cons ne show ?thesis
          by (simp add: Parse_step_def Let_def no_action_not_Returned)
      qed
    qed
  qed
qed

lemma Parse_accept_bookkeeping:
  assumes "Parse rng fmtLoc L gr tokens = Some (Returned v)"
  shows "\<exists>keywords toks stateStack resultStack.
           keywords_of rng (actionTable gr) = Inr keywords \<and>
           Parse_run rng fmtLoc L gr tokens = Some (Returned v, (toks, stateStack, resultStack)) \<and>
           toks \<noteq> [] \<and> stateStack \<noteq> [] \<and>
           map_of (actionTable gr) (last stateStack, symbol_of keywords (hd toks)) = Some acceptAction \<and>
           resultStack \<noteq> [] \<and> length stateStack = length resultStack + 1 \<and> v = resultStack ! 0"
proof -
  from assms obtain cfg where run: "Parse_run rng fmtLoc L gr tokens = Some (Returned v, cfg)"
    by (auto simp: Parse_def)
  then obtain kws where kw: "keywords_of rng (actionTable gr) = Inr kws"
    and loop: "Parse_loop rng fmtLoc L gr (terminals_of rng (actionTable gr)) kws (tokens, [initialState gr], [])
               = Some (Returned v, cfg)"
    by (auto simp: Parse_run_def split: sum.splits)
  obtain toks ss rs where cfg: "cfg = (toks, ss, rs)" by (cases cfg)
  from Parse_loop_configs [OF loop] cfg obtain n where
    n: "Parse_configs rng fmtLoc L gr (terminals_of rng (actionTable gr)) kws n (tokens, [initialState gr], [])
          = Some (toks, ss, rs)"
    and stop: "Parse_step rng fmtLoc L gr (terminals_of rng (actionTable gr)) kws (toks, ss, rs) = Stop (Returned v)"
    by auto
  let ?I = "\<lambda>c. length (fst (snd c)) = length (snd (snd c)) + 1"
  have "?I (toks, ss, rs)"
  proof (rule Parse_configs_invariant [where I = ?I, OF _ _ n])
    fix c c' assume "?I c" and "Parse_step rng fmtLoc L gr (terminals_of rng (actionTable gr)) kws c = Continue c'"
    then show "?I c'"
      using Parse_step_stacks [of rng fmtLoc L gr _ kws "fst c" "fst (snd c)" "snd (snd c)" "fst c'" "fst (snd c')" "snd (snd c')"]
      by simp
  qed simp
  then have len: "length ss = length rs + 1" by simp
  from Parse_step_Returned [OF stop] len kw run cfg show ?thesis by blast
qed

lemma BuildItems_no_shift:
  assumes built: "BuildItems rng rules = Some (Inr g)"
    and sh: "map_of (actionTable g) (s, c) = Some (shiftAction q)"
  shows "c \<in> \<Union> (set ` RHS ` set rules)"
proof -
  from BuildItems_fills [OF built] obtain gr queue where
    b: "build_graph rng rules = Some (Inr (gr, queue))"
    and f: "fills (columns (actionTable gr)) (actionTable gr) (actionTable g)"
    by blast
  from fills_new [OF f sh] have "map_of (actionTable gr) (s, c) = Some (shiftAction q)" by auto
  from graph_inv_action [OF build_graph_inv [OF b] this] show ?thesis by simp
qed

lemma symbol_of_EOF: "symbol_of kws token = ''_EOF'' \<longleftrightarrow> Type token = EOF"
  by (cases "Type token") (simp_all add: symbol_of_def)

lemma Parse_step_tokens:
  assumes step: "Parse_step rng fmtLoc L gr terminals kws (tokens, ss, rs) = Continue (tokens', ss', rs')"
    and noshift: "\<forall>s q. map_of (actionTable gr) (s, ''_EOF'') \<noteq> Some (shiftAction q)"
    and inv: "tokens \<noteq> [] \<and> Type (last tokens) = EOF"
  shows "tokens' \<noteq> [] \<and> Type (last tokens') = EOF"
proof -
  from Parse_step_Continue [OF step]
  consider (shift) st where "map_of (actionTable gr) (last ss, symbol_of kws (hd tokens)) = Some (shiftAction st)"
      "tokens' = tl tokens"
    | (reduce) i where "reduce L gr i (tokens, ss, rs) = Continue (tokens', ss', rs')"
    by auto
  then show ?thesis
  proof cases
    case shift
    with noshift have "symbol_of kws (hd tokens) \<noteq> ''_EOF''" by metis
    then have ne: "Type (hd tokens) \<noteq> EOF" by (simp add: symbol_of_EOF)
    from inv obtain t ts where ts: "tokens = t # ts" by (cases tokens) auto
    with ne inv have "ts \<noteq> []" by auto
    with ts inv shift(2) show ?thesis by simp
  next
    case reduce
    from reduce_Continue [OF this] inv show ?thesis by auto
  qed
qed

text \<open>
  C10. In a grammar built from rules none of whose right-hand sides contains \<open>_EOF\<close>, no
  entry of the action table in the column \<open>_EOF\<close> is a shift. For a list of tokens that
  ends with an EOF token, every configuration in which a pass of the loop of Parse starts
  has a list of tokens that is not empty and ends with the EOF token, so that the read of
  \<open>tokens[0]\<close> is in bounds; and so has the configuration in which Parse stops.
\<close>

theorem Parse_front_token_in_bounds:
  assumes built: "BuildItems rng rules = Some (Inr g)"
    and noEOF: "''_EOF'' \<notin> \<Union> (set ` RHS ` set rules)"
    and toks: "tokens \<noteq> []" "Type (last tokens) = EOF"
  shows "(\<forall>s q. map_of (actionTable g) (s, ''_EOF'') \<noteq> Some (shiftAction q)) \<and>
         (\<forall>n toks stateStack resultStack.
            Parse_configs rng' fmtLoc L g terminals keywords n (tokens, [initialState g], [])
              = Some (toks, stateStack, resultStack) \<longrightarrow>
            toks \<noteq> [] \<and> Type (last toks) = EOF) \<and>
         (\<forall>out toks stateStack resultStack.
            Parse_run rng' fmtLoc L g tokens = Some (out, (toks, stateStack, resultStack)) \<longrightarrow>
            toks \<noteq> [] \<and> Type (last toks) = EOF)"
proof -
  have noshift: "\<forall>s q. map_of (actionTable g) (s, ''_EOF'') \<noteq> Some (shiftAction q)"
    using BuildItems_no_shift [OF built] noEOF by blast
  let ?I = "\<lambda>c. fst c \<noteq> [] \<and> Type (last (fst c)) = EOF"
  have conf: "?I c'" if "Parse_configs rng' fmtLoc L g ts kws n (tokens, [initialState g], []) = Some c'"
    for ts kws n c'
  proof (rule Parse_configs_invariant [where I = ?I, OF _ _ that])
    fix c c' assume "?I c" and "Parse_step rng' fmtLoc L g ts kws c = Continue c'"
    then show "?I c'"
      using Parse_step_tokens [of rng' fmtLoc L g ts kws "fst c" "fst (snd c)" "snd (snd c)" "fst c'" "fst (snd c')" "snd (snd c')"] noshift
      by simp
  qed (simp add: toks)
  have run: "toks \<noteq> [] \<and> Type (last toks) = EOF"
    if "Parse_run rng' fmtLoc L g tokens = Some (out, (toks, ss, rs))" for out toks ss rs
  proof (cases "keywords_of rng' (actionTable g)")
    case (Inl p)
    with that toks show ?thesis by (simp add: Parse_run_def)
  next
    case (Inr kws)
    with that have "Parse_loop rng' fmtLoc L g (terminals_of rng' (actionTable g)) kws (tokens, [initialState g], [])
        = Some (out, (toks, ss, rs))" by (simp add: Parse_run_def)
    from Parse_loop_configs [OF this] obtain n where
      "Parse_configs rng' fmtLoc L g (terminals_of rng' (actionTable g)) kws n (tokens, [initialState g], [])
        = Some (toks, ss, rs)" by auto
    from conf [OF this] show ?thesis by simp
  qed
  from noshift conf run show ?thesis by fastforce
qed

text \<open>The keywords.\<close>

lemma keywords_loop_Inr:
  assumes "keywords_loop keys kw0 = Inr kw"
  shows "(\<forall>key \<in> set keys. snd key \<noteq> []) \<and>
         fst ` set kw = fst ` set kw0 \<union> tl ` {c \<in> snd ` set keys. hd c = CHR ''&''}"
  using assms
proof (induction keys arbitrary: kw0)
  case Nil
  then show ?case by simp
next
  case (Cons key keys)
  from Cons.prems have ne: "snd key \<noteq> []" by (auto split: if_splits)
  show ?case
  proof (cases "hd (snd key) = CHR ''&''")
    case True
    with Cons.prems ne have "keywords_loop keys (AList.update (tl (snd key)) () kw0) = Inr kw" by simp
    from Cons.IH [OF this] have
      a: "\<forall>key \<in> set keys. snd key \<noteq> []"
      and b: "fst ` set kw = insert (tl (snd key)) (fst ` set kw0) \<union> tl ` {c \<in> snd ` set keys. hd c = CHR ''&''}"
      by (simp_all add: dom_update)
    have "{c \<in> snd ` set (key # keys). hd c = CHR ''&''} = insert (snd key) {c \<in> snd ` set keys. hd c = CHR ''&''}"
      using True by auto
    with a b ne show ?thesis by simp
  next
    case False
    with Cons.prems ne have "keywords_loop keys kw0 = Inr kw" by simp
    from Cons.IH [OF this] have
      a: "\<forall>key \<in> set keys. snd key \<noteq> []"
      and b: "fst ` set kw = fst ` set kw0 \<union> tl ` {c \<in> snd ` set keys. hd c = CHR ''&''}"
      by simp_all
    have "{c \<in> snd ` set (key # keys). hd c = CHR ''&''} = {c \<in> snd ` set keys. hd c = CHR ''&''}"
      using False by auto
    with a b ne show ?thesis by simp
  qed
qed

lemma keywords_of_Inr:
  assumes ord: "is_order rng" and kw: "keywords_of rng tbl = Inr kws"
  shows "(\<forall>c \<in> columns tbl. c \<noteq> []) \<and> set kws = tl ` {c \<in> columns tbl. hd c = CHR ''&''}"
proof -
  from kw obtain kw' where l: "keywords_loop (range_order rng (map fst tbl)) [] = Inr kw'"
    and k: "kws = map fst kw'"
    by (auto simp: keywords_of_def split: sum.splits)
  have s: "snd ` set (range_order rng (map fst tbl)) = columns tbl"
    by (simp add: range_order_set [OF ord] columns_def)
  from keywords_loop_Inr [OF l] have
    a: "\<forall>key \<in> set (range_order rng (map fst tbl)). snd key \<noteq> []"
    and b: "fst ` set kw' = tl ` {c \<in> columns tbl. hd c = CHR ''&''}"
    unfolding s by simp_all
  from a s have 1: "\<forall>c \<in> columns tbl. c \<noteq> []" by force
  from b k have 2: "set kws = tl ` {c \<in> columns tbl. hd c = CHR ''&''}" by simp
  from 1 2 show ?thesis by blast
qed

lemma symbol_of_Word:
  assumes ord: "is_order rng" and kw: "keywords_of rng (actionTable gr) = Inr keywords"
    and w: "Type token = Word"
  shows "symbol_of keywords token =
           (if CHR ''&'' # Form token \<in> columns (actionTable gr) then CHR ''&'' # Form token else ''_ID'')"
proof -
  from keywords_of_Inr [OF ord kw] have
    ne: "\<forall>c \<in> columns (actionTable gr). c \<noteq> []"
    and s: "set keywords = tl ` {c \<in> columns (actionTable gr). hd c = CHR ''&''}" by simp_all
  have "Form token \<in> set keywords \<longleftrightarrow> CHR ''&'' # Form token \<in> columns (actionTable gr)"
  proof
    assume "Form token \<in> set keywords"
    with s obtain c where c: "c \<in> columns (actionTable gr)" "hd c = CHR ''&''" "tl c = Form token" by auto
    with ne have "c = CHR ''&'' # Form token" by (cases c) auto
    with c show "CHR ''&'' # Form token \<in> columns (actionTable gr)" by simp
  next
    assume "CHR ''&'' # Form token \<in> columns (actionTable gr)"
    with s show "Form token \<in> set keywords" by force
  qed
  with w show ?thesis by (simp add: symbol_of_def)
qed

lemma expected_loop_Inr:
  assumes "\<forall>t \<in> set ts. map_of tbl (cur, t) \<noteq> None \<longrightarrow> t \<noteq> []"
  shows "expected_loop tbl cur ts acc = Inr (acc @ map render (filter (\<lambda>t. map_of tbl (cur, t) \<noteq> None) ts))"
  using assms
proof (induction ts arbitrary: acc)
  case Nil
  then show ?case by simp
next
  case (Cons t ts)
  then show ?case by (cases "map_of tbl (cur, t)") simp_all
qed

lemma error_of_text: "error_of fmtLoc token expected = Failed (error_text fmtLoc token expected)"
proof (cases expected)
  case Nil
  then show ?thesis by (simp add: error_of_def error_text_def)
next
  case (Cons s ss)
  then show ?thesis by (cases ss) (simp_all add: error_of_def error_text_def)
qed

lemma distinct_fold_update:
  "distinct (map fst t0) \<Longrightarrow> distinct (map fst (fold (\<lambda>key t. AList.update (snd key) () t) ks t0))"
  by (induction ks arbitrary: t0) (simp_all add: distinct_update)

lemma distinct_terminals_of: "distinct (terminals_of rng tbl)"
  using distinct_fold_update [of "[]" "range_order rng (map fst tbl)"]
  by (simp add: terminals_of_def)

lemma range_order_distinct: "is_order rng \<Longrightarrow> distinct xs \<Longrightarrow> distinct (range_order rng xs)"
  using range_order_mset [of rng xs] by (metis mset_eq_imp_distinct_iff)

lemma render_cases:
  "render (CHR ''&'' # X) = CHR 0x27 # X @ [CHR 0x27]"
  "render ''_ID'' = ''identifier''"
  "render ''_NUM'' = ''number''"
  "render ''_STR'' = ''string''"
  "render ''_EOF'' = ''EOF''"
  "render ''_EOL'' = ''EOL''"
  by (simp_all add: render_def)

lemma render_other:
  "hd t \<noteq> CHR ''&'' \<Longrightarrow> t \<notin> {''_ID'', ''_NUM'', ''_STR'', ''_EOF'', ''_EOL''} \<Longrightarrow> render t = t"
  by (simp add: render_def)

text \<open>
  C3. When the action table has no entry for the state on top of the state stack and the
  symbol of the front token, the pass of the loop of Parse stops with an error and not with
  a panic, and the loop returns that error. The text of the error is made from the columns in which the row of that state
  has an entry, each taken once, in the order in which the range over the terminals
  yields them, and each rendered by \<open>render\<close>: it is \<open>no expected symbol\<close> when there
  is no such column, \<open>expected s at line loc\<close> when there is one, and
  \<open>expected one of s1, s2, ... at line loc\<close> when there are several, where \<open>loc\<close> is
  the location of the front token as it prints. The word \<open>line\<close> stands before the
  location. \<open>render\<close> puts \<open>X\<close> between single quotes for \<open>&X\<close>, and gives
  \<open>identifier\<close>, \<open>number\<close>, \<open>string\<close>, \<open>EOF\<close> and \<open>EOL\<close> for \<open>_ID\<close>, \<open>_NUM\<close>,
  \<open>_STR\<close>, \<open>_EOF\<close> and \<open>_EOL\<close>.
\<close>

theorem Parse_missing_action_error:
  assumes ord: "is_order rng" and kw: "keywords_of rng (actionTable gr) = Inr keywords"
    and ss: "stateStack \<noteq> []"
    and missing: "map_of (actionTable gr) (last stateStack, symbol_of keywords token) = None"
  shows "(\<exists>cols. distinct cols \<and> set cols = {c. map_of (actionTable gr) (last stateStack, c) \<noteq> None} \<and>
            Parse_step rng fmtLoc L gr (terminals_of rng (actionTable gr)) keywords
                (token # rest, stateStack, resultStack)
              = Stop (Failed (error_text fmtLoc token (map render cols))) \<and>
            Parse_loop rng fmtLoc L gr (terminals_of rng (actionTable gr)) keywords
                (token # rest, stateStack, resultStack)
              = Some (Failed (error_text fmtLoc token (map render cols)),
                      (token # rest, stateStack, resultStack))) \<and>
         render (CHR ''&'' # X) = CHR 0x27 # X @ [CHR 0x27] \<and>
         render ''_ID'' = ''identifier'' \<and> render ''_NUM'' = ''number'' \<and> render ''_STR'' = ''string'' \<and>
         render ''_EOF'' = ''EOF'' \<and> render ''_EOL'' = ''EOL''"
proof -
  let ?tbl = "actionTable gr"
  let ?cur = "last stateStack"
  let ?ts = "range_order rng (terminals_of rng ?tbl)"
  let ?cols = "filter (\<lambda>t. map_of ?tbl (?cur, t) \<noteq> None) ?ts"
  from keywords_of_Inr [OF ord kw] have ne: "\<forall>c \<in> columns ?tbl. c \<noteq> []" by simp
  have set_ts: "set ?ts = columns ?tbl"
    by (simp add: range_order_set [OF ord] terminals_of_columns [OF ord])
  from ne set_ts have "\<forall>t \<in> set ?ts. map_of ?tbl (?cur, t) \<noteq> None \<longrightarrow> t \<noteq> []" by simp
  from expected_loop_Inr [OF this, of "[]"]
  have "no_action rng fmtLoc ?tbl (terminals_of rng ?tbl) ?cur token = Failed (error_text fmtLoc token (map render ?cols))"
    by (simp add: no_action_def error_of_text)
  with ss missing have step: "Parse_step rng fmtLoc L gr (terminals_of rng ?tbl) keywords (token # rest, stateStack, resultStack)
      = Stop (Failed (error_text fmtLoc token (map render ?cols)))"
    by (simp add: Parse_step_def Let_def)
  have d: "distinct ?cols"
    by (intro distinct_filter range_order_distinct [OF ord] distinct_terminals_of)
  have "set ?cols = {c \<in> columns ?tbl. map_of ?tbl (?cur, c) \<noteq> None}"
    using set_ts by auto
  also have "\<dots> = {c. map_of ?tbl (?cur, c) \<noteq> None}"
    by (auto simp: columns_iff)
  finally have s: "set ?cols = {c. map_of ?tbl (?cur, c) \<noteq> None}" .
  from step have loop: "Parse_loop rng fmtLoc L gr (terminals_of rng ?tbl) keywords (token # rest, stateStack, resultStack)
      = Some (Failed (error_text fmtLoc token (map render ?cols)), (token # rest, stateStack, resultStack))"
    by (subst Parse_loop.simps) simp
  from d s step loop have "\<exists>cols. distinct cols \<and> set cols = {c. map_of ?tbl (?cur, c) \<noteq> None} \<and>
            Parse_step rng fmtLoc L gr (terminals_of rng ?tbl) keywords (token # rest, stateStack, resultStack)
              = Stop (Failed (error_text fmtLoc token (map render cols))) \<and>
            Parse_loop rng fmtLoc L gr (terminals_of rng ?tbl) keywords (token # rest, stateStack, resultStack)
              = Some (Failed (error_text fmtLoc token (map render cols)), (token # rest, stateStack, resultStack))"
    by blast
  then show ?thesis by (simp add: render_cases)
qed












text \<open>
  C8. Parse computes the keywords once, before its loop, and runs the loop with them; they
  are the columns of the action table that start with \<open>&\<close>, without the \<open>&\<close>. In a
  pass of the loop whose front token is of kind Word, the action taken is the entry of the
  action table for the state on top of the state stack and the symbol \<open>&\<close> followed by
  the form of the token when that is a column of the action table, and \<open>_ID\<close>
  otherwise; the loop goes on with the same keywords.
\<close>

theorem Parse_word_classification:
  assumes ord: "is_order rng" and kw: "keywords_of rng (actionTable gr) = Inr keywords"
    and w: "Type token = Word" and ss: "stateStack \<noteq> []"
  shows "Parse_run rng fmtLoc L gr tokens
           = Parse_loop rng fmtLoc L gr (terminals_of rng (actionTable gr)) keywords (tokens, [initialState gr], []) \<and>
         set keywords = tl ` {c \<in> columns (actionTable gr). hd c = CHR ''&''} \<and>
         symbol_of keywords token =
           (if CHR ''&'' # Form token \<in> columns (actionTable gr) then CHR ''&'' # Form token else ''_ID'') \<and>
         Parse_loop rng fmtLoc L gr terminals keywords (token # rest, stateStack, resultStack) =
           (case map_of (actionTable gr)
                   (last stateStack,
                    if CHR ''&'' # Form token \<in> columns (actionTable gr) then CHR ''&'' # Form token else ''_ID'') of
              Some (shiftAction st) \<Rightarrow>
                Parse_loop rng fmtLoc L gr terminals keywords (rest, stateStack @ [st], resultStack @ [TokenVal token])
            | Some (reduceAction i) \<Rightarrow>
                (case reduce L gr i (token # rest, stateStack, resultStack) of
                   Continue cfg' \<Rightarrow> Parse_loop rng fmtLoc L gr terminals keywords cfg'
                 | Stop out \<Rightarrow> Some (out, (token # rest, stateStack, resultStack)))
            | Some acceptAction \<Rightarrow>
                (case resultStack of
                   [] \<Rightarrow> Some (Panicked (IndexOutOfRange ''resultStack[0]''), (token # rest, stateStack, resultStack))
                 | r # _ \<Rightarrow> Some (Returned r, (token # rest, stateStack, resultStack)))
            | _ \<Rightarrow> Some (no_action rng fmtLoc (actionTable gr) terminals (last stateStack) token,
                         (token # rest, stateStack, resultStack)))"
proof -
  let ?sym = "if CHR ''&'' # Form token \<in> columns (actionTable gr) then CHR ''&'' # Form token else ''_ID''"
  let ?cfg = "(token # rest, stateStack, resultStack)"
  from kw have run: "Parse_run rng fmtLoc L gr tokens
           = Parse_loop rng fmtLoc L gr (terminals_of rng (actionTable gr)) keywords (tokens, [initialState gr], [])"
    by (simp add: Parse_run_def)
  from keywords_of_Inr [OF ord kw]
  have set: "set keywords = tl ` {c \<in> columns (actionTable gr). hd c = CHR ''&''}" by simp
  from symbol_of_Word [OF ord kw w] have sym: "symbol_of keywords token = ?sym" .
  have loop: "Parse_loop rng fmtLoc L gr terminals keywords ?cfg =
           (case map_of (actionTable gr) (last stateStack, ?sym) of
              Some (shiftAction st) \<Rightarrow>
                Parse_loop rng fmtLoc L gr terminals keywords (rest, stateStack @ [st], resultStack @ [TokenVal token])
            | Some (reduceAction i) \<Rightarrow>
                (case reduce L gr i ?cfg of
                   Continue cfg' \<Rightarrow> Parse_loop rng fmtLoc L gr terminals keywords cfg'
                 | Stop out \<Rightarrow> Some (out, ?cfg))
            | Some acceptAction \<Rightarrow>
                (case resultStack of
                   [] \<Rightarrow> Some (Panicked (IndexOutOfRange ''resultStack[0]''), ?cfg)
                 | r # _ \<Rightarrow> Some (Returned r, ?cfg))
            | _ \<Rightarrow> Some (no_action rng fmtLoc (actionTable gr) terminals (last stateStack) token, ?cfg))"
  proof (cases "map_of (actionTable gr) (last stateStack, ?sym)")
    case None
    with ss sym show ?thesis
      by (subst Parse_loop.simps) (simp add: Parse_step_def Let_def)
  next
    case (Some a)
    with ss sym show ?thesis
      by (subst Parse_loop.simps) (cases a; cases resultStack; simp add: Parse_step_def Let_def)
  qed
  from run set sym loop show ?thesis by (intro conjI)
qed

section \<open>The example grammars, built and run\<close>

declare Parse_loop.simps [code]

lemma tables_of_Inr:
  assumes "tables_of (BuildItems rng rules) = Some (Inr (i, a, g, s))"
  shows "BuildItems rng rules = Some (Inr \<lparr>Rules = rules, states = s, initialState = i, actionTable = a, gotoTable = g\<rparr>)"
proof -
  from assms obtain r where r: "BuildItems rng rules = Some r"
    and m: "map_sum id (\<lambda>g. (initialState g, actionTable g, gotoTable g, states g)) r = Inr (i, a, g, s)"
    by (auto simp: tables_of_def)
  from m obtain gr where gr: "r = Inr gr"
    and f: "initialState gr = i" "actionTable gr = a" "gotoTable gr = g" "states gr = s"
    by (cases r) auto
  from r gr have b: "BuildItems rng rules = Some (Inr gr)" by simp
  from BuildItems_fills [OF b] obtain gr' queue where
    bg: "build_graph rng rules = Some (Inr (gr', queue))" and g: "gr = gr'\<lparr>actionTable := actionTable gr\<rparr>"
    by blast
  from graph_inv_Rules [OF build_graph_inv [OF bg]] g have "Rules gr = rules"
    by (metis Grammar.select_convs(1) Grammar.surjective Grammar.update_convs(4))
  with f have "gr = \<lparr>Rules = rules, states = s, initialState = i, actionTable = a, gotoTable = g\<rparr>"
    by (cases gr) simp
  with b show ?thesis by simp
qed

lemma example_tables:
  "tables_of (BuildItems insertion_order example_rules) =
     Some (Inr (initialState example_grammar, actionTable example_grammar, gotoTable example_grammar,
                states example_grammar))"
  by code_simp

lemma BuildItems_example: "BuildItems insertion_order example_rules = Some (Inr example_grammar)"
  using tables_of_Inr [OF example_tables] by (simp add: example_grammar_def)

lemma pair_tables:
  "tables_of (BuildItems insertion_order pair_rules) =
     Some (Inr (initialState pair_grammar, actionTable pair_grammar, gotoTable pair_grammar,
                states pair_grammar))"
  by code_simp

lemma BuildItems_pair: "BuildItems insertion_order pair_rules = Some (Inr pair_grammar)"
  using tables_of_Inr [OF pair_tables] by (simp add: pair_grammar_def)

lemma is_order_insertion: "is_order insertion_order"
  by (simp add: is_order_def insertion_order_def)

lemma graph_tables_Inr:
  assumes "graph_tables (build_graph rng rules) = Some (Inr (i, a, g, s, q))"
  shows "build_graph rng rules
           = Some (Inr (\<lparr>Rules = rules, states = s, initialState = i, actionTable = a, gotoTable = g\<rparr>, q))"
proof -
  from assms obtain r where r: "build_graph rng rules = Some r"
    and m: "map_sum id (\<lambda>gq. (initialState (fst gq), actionTable (fst gq), gotoTable (fst gq),
                                states (fst gq), snd gq)) r = Inr (i, a, g, s, q)"
    by (auto simp: graph_tables_def)
  from m obtain gr where gr: "r = Inr (gr, q)"
    and f: "initialState gr = i" "actionTable gr = a" "gotoTable gr = g" "states gr = s"
    by (cases r) auto
  from r gr have b: "build_graph rng rules = Some (Inr (gr, q))" by simp
  from graph_inv_Rules [OF build_graph_inv [OF b]] have "Rules gr = rules" .
  with f have "gr = \<lparr>Rules = rules, states = s, initialState = i, actionTable = a, gotoTable = g\<rparr>"
    by (cases gr) simp
  with b show ?thesis by simp
qed

lemma conflict_tables:
  "graph_tables (build_graph insertion_order conflict_rules) =
     Some (Inr (initialState conflict_graph, actionTable conflict_graph, gotoTable conflict_graph,
                states conflict_graph, []))"
  by code_simp

lemma build_graph_conflict: "build_graph insertion_order conflict_rules = Some (Inr (conflict_graph, []))"
  using graph_tables_Inr [OF conflict_tables] by (simp add: conflict_graph_def)

lemma keywords_example: "keywords_of insertion_order (actionTable example_grammar) = Inr [''expr'', ''+'']"
  by code_simp

lemma terminals_example:
  "terminals_of insertion_order (actionTable example_grammar) = [''&expr'', ''_EOF'', ''_NUM'', ''&+'']"
  by code_simp


lemma Parse_run_example_error:
  "Parse_run insertion_order fmt_line_col noloc example_grammar
       [tk Word ''expr'' 1, tk Symbol ''+'' 6, tk EOF [] 7]
     = Some (Failed ''expected number at line 1:6'',
             ([tk Symbol ''+'' 6, tk EOF [] 7],
              [''Expr -> *&expr E; Init -> *Expr;'', ''E -> *_NUM &+ E; E -> *_NUM; Expr -> &expr *E;''],
              [TokenVal (tk Word ''expr'' 1)]))"
  by code_simp

lemma Parse_run_pair:
  "Parse_run insertion_order fmt_line_col noloc pair_grammar
       [tk Number ''1'' 1, tk Number ''2'' 3, tk EOF [] 4]
     = Some (Returned (TokenVal (tk Number ''1'' 1)),
             ([tk EOF [] 4],
              [''Init -> *_NUM _NUM;'', ''Init -> _NUM *_NUM;'', ''Init -> _NUM _NUM*;''],
              [TokenVal (tk Number ''1'' 1), TokenVal (tk Number ''2'' 3)]))"
  by code_simp

lemma Parse_configs_example:
  "Parse_configs insertion_order fmt_line_col noloc example_grammar
       (terminals_of insertion_order (actionTable example_grammar)) [''expr'', ''+''] 4
       ([tk Word ''expr'' 1, tk Number ''1'' 6, tk Symbol ''+'' 7, tk Number ''2'' 8, tk EOF [] 9],
        [initialState example_grammar], [])
     = Some ([tk EOF [] 9],
             [''Expr -> *&expr E; Init -> *Expr;'', ''E -> *_NUM &+ E; E -> *_NUM; Expr -> &expr *E;'',
              ''E -> _NUM *&+ E; E -> _NUM*;'', ''E -> *_NUM &+ E; E -> *_NUM; E -> _NUM &+ *E;'',
              ''E -> _NUM *&+ E; E -> _NUM*;''],
             [TokenVal (tk Word ''expr'' 1), TokenVal (tk Number ''1'' 6), TokenVal (tk Symbol ''+'' 7),
              TokenVal (tk Number ''2'' 8)])"
  by code_simp

text \<open>
  The state that holds the complete start rule is stored under the string of its items,
  so it is entered from every state that has the start symbol after a dot. With the start
  symbol on a right-hand side, Parse accepts there with more than one value on the result
  stack: on the tokens \<open>( 1\<close> it returns the token \<open>(\<close>.
\<close>

lemma Parse_nested_start:
  "NewGrammar_Parse insertion_order fmt_line_col noloc [nested_rules]
       [tk Symbol ''('' 1, tk Number ''1'' 2, tk EOF [] 3]
     = Some (Returned (TokenVal (tk Symbol ''('' 1)),
             ([tk EOF [] 3],
              [''E -> *&( Init; E -> *_NUM; Init -> *E;'',
               ''E -> &( *Init; E -> *&( Init; E -> *_NUM; Init -> *E;'',
               ''Init -> E*;''],
              [TokenVal (tk Symbol ''('' 1), TokenVal (tk Number ''1'' 2)]))"
  by code_simp

section \<open>The statements at the example grammars\<close>

text \<open>
  In the grammar of the example, the state \<open>E -> _NUM *&+ E; E -> _NUM*;\<close> has a shift
  on \<open>+\<close> and the complete item of the rule \<open>E -> number\<close>: its cell for \<open>+\<close> holds
  the shift, and its cell for \<open>_EOF\<close> the reduce action.
\<close>

theorem BuildItems_shift_precedence_witness:
  "BuildItems insertion_order example_rules = Some (Inr example_grammar) \<and> is_order insertion_order \<and>
   map_of (states example_grammar) ''E -> _NUM *&+ E; E -> _NUM*;''
     = Some \<lparr>Items = [\<lparr>ItemLHS = ''E'', ItemRHS = [''_NUM'', ''&+'', ''E''], DotPos = 1\<rparr>,
                      \<lparr>ItemLHS = ''E'', ItemRHS = [''_NUM''], DotPos = 1\<rparr>]\<rparr> \<and>
   terminal_prefix ''&+'' \<and>
   map_of (actionTable example_grammar) (''E -> _NUM *&+ E; E -> _NUM*;'', ''&+'')
     = Some (shiftAction ''E -> *_NUM &+ E; E -> *_NUM; E -> _NUM &+ *E;'') \<and>
   map_of (actionTable example_grammar) (''E -> _NUM *&+ E; E -> _NUM*;'', ''_EOF'') = Some (reduceAction 2) \<and>
   (\<exists>gr queue. build_graph insertion_order example_rules = Some (Inr (gr, queue)) \<and>
      fills (columns (actionTable gr)) (actionTable gr) (actionTable example_grammar))"
proof -
  let ?st = "\<lparr>Items = [\<lparr>ItemLHS = ''E'', ItemRHS = [''_NUM'', ''&+'', ''E''], DotPos = 1\<rparr>,
                      \<lparr>ItemLHS = ''E'', ItemRHS = [''_NUM''], DotPos = 1\<rparr>]\<rparr>"
  let ?it = "\<lparr>ItemLHS = ''E'', ItemRHS = [''_NUM'', ''&+'', ''E''], DotPos = 1\<rparr>"
  have st: "map_of (states example_grammar) ''E -> _NUM *&+ E; E -> _NUM*;'' = Some ?st"
    by (simp add: example_grammar_def)
  have it: "?it \<in> set (Items ?st)" "DotPos ?it < length (ItemRHS ?it)" by simp_all
  have t: "terminal_prefix (ItemRHS ?it ! DotPos ?it)" by (simp add: terminal_prefix_def)
  have a: "map_of (actionTable example_grammar) (''E -> _NUM *&+ E; E -> _NUM*;'', ''&+'')
             = Some (shiftAction ''E -> *_NUM &+ E; E -> *_NUM; E -> _NUM &+ *E;'')"
    "map_of (actionTable example_grammar) (''E -> _NUM *&+ E; E -> _NUM*;'', ''_EOF'') = Some (reduceAction 2)"
    by (simp_all add: example_grammar_def)
  from BuildItems_shift_precedence [OF BuildItems_example is_order_insertion st it t] BuildItems_example is_order_insertion st t a
  show ?thesis by simp
qed


text \<open>
  In the grammar with the conflict, the state \<open>A -> _NUM*; S -> _NUM*;\<close> has the
  complete items of the rules 1 and 3 and no shift on \<open>_EOF\<close>: BuildItems panics.
\<close>

theorem BuildItems_reduce_conflict_panics_witness:
  "build_graph insertion_order conflict_rules = Some (Inr (conflict_graph, [])) \<and>
   is_order insertion_order \<and>
   map_of (states conflict_graph) ''A -> _NUM*; S -> _NUM*;''
     = Some \<lparr>Items = [\<lparr>ItemLHS = ''A'', ItemRHS = [''_NUM''], DotPos = 1\<rparr>,
                      \<lparr>ItemLHS = ''S'', ItemRHS = [''_NUM''], DotPos = 1\<rparr>]\<rparr> \<and>
   Item_String (completed (conflict_rules ! 1)) = Item_String \<lparr>ItemLHS = ''S'', ItemRHS = [''_NUM''], DotPos = 1\<rparr> \<and>
   Item_String (completed (conflict_rules ! 3)) = Item_String \<lparr>ItemLHS = ''A'', ItemRHS = [''_NUM''], DotPos = 1\<rparr> \<and>
   ''_EOF'' \<in> columns (actionTable conflict_graph) \<and>
   map_of (actionTable conflict_graph) (''A -> _NUM*; S -> _NUM*;'', ''_EOF'') = None \<and>
   fill_terminal ''A -> _NUM*; S -> _NUM*;'' 3 ''_EOF''
       (Inr [((''A -> _NUM*; S -> _NUM*;'', ''_EOF''), reduceAction 1)])
     = Inl (Conflict ''_EOF'' (reduceAction 1)) \<and>
   (\<exists>t' a. \<not> is_shift a \<and> BuildItems insertion_order conflict_rules = Some (Inl (Conflict t' a)))"
proof -
  let ?k = "''A -> _NUM*; S -> _NUM*;''"
  let ?st = "\<lparr>Items = [\<lparr>ItemLHS = ''A'', ItemRHS = [''_NUM''], DotPos = 1\<rparr>,
                      \<lparr>ItemLHS = ''S'', ItemRHS = [''_NUM''], DotPos = 1\<rparr>]\<rparr>"
  let ?it1 = "\<lparr>ItemLHS = ''S'', ItemRHS = [''_NUM''], DotPos = 1\<rparr>"
  let ?it3 = "\<lparr>ItemLHS = ''A'', ItemRHS = [''_NUM''], DotPos = 1\<rparr>"
  have st: "map_of (states conflict_graph) ?k = Some ?st" by (simp add: conflict_graph_def)
  have i: "0 < (1::nat)" "1 < length conflict_rules" and j: "0 < (3::nat)" "3 < length conflict_rules"
    and ij: "(1::nat) \<noteq> 3"
    by (simp_all add: conflict_rules_def)
  have it1: "?it1 \<in> set (Items ?st)" "Item_String (completed (conflict_rules ! 1)) = Item_String ?it1"
    by (simp_all add: conflict_rules_def completed_def)
  have it3: "?it3 \<in> set (Items ?st)" "Item_String (completed (conflict_rules ! 3)) = Item_String ?it3"
    by (simp_all add: conflict_rules_def completed_def)
  have t: "''_EOF'' \<in> columns (actionTable conflict_graph)"
    by (simp add: conflict_graph_def columns_def)
  have n: "map_of (actionTable conflict_graph) (?k, ''_EOF'') = None"
    by (simp add: conflict_graph_def)
  then have free: "\<forall>q. map_of (actionTable conflict_graph) (?k, ''_EOF'') \<noteq> Some (shiftAction q)"
    by simp
  have m: "map_of [((?k, ''_EOF''), reduceAction 1)] (?k, ''_EOF'') = Some (reduceAction 1)"
    "\<not> is_shift (reduceAction 1)"
    by (simp_all add: is_shift_def)
  note c = BuildItems_reduce_conflict_panics [OF build_graph_conflict is_order_insertion st i j ij it1 it3 t free]
  from c have "fill_terminal ?k 3 ''_EOF'' (Inr [((?k, ''_EOF''), reduceAction 1)])
                 = Inl (Conflict ''_EOF'' (reduceAction 1))"
    using m by blast
  with c build_graph_conflict is_order_insertion st it1(2) it3(2) t n show ?thesis by blast
qed

text \<open>
  In the grammar of the example, the initial state has its entry for \<open>&expr\<close> in the
  action table only, and its entry for \<open>Expr\<close> in the goto table only.
\<close>

theorem BuildItems_tables_disjoint_witness:
  "BuildItems insertion_order example_rules = Some (Inr example_grammar) \<and>
   map_of (actionTable example_grammar) (''Expr -> *&expr E; Init -> *Expr;'', ''&expr'')
     = Some (shiftAction ''E -> *_NUM &+ E; E -> *_NUM; Expr -> &expr *E;'') \<and>
   map_of (gotoTable example_grammar) (''Expr -> *&expr E; Init -> *Expr;'', ''&expr'') = None \<and>
   terminal_prefix ''&expr'' \<and>
   map_of (gotoTable example_grammar) (''Expr -> *&expr E; Init -> *Expr;'', ''Expr'')
     = Some (gotoAction ''Init -> Expr*;'') \<and>
   map_of (actionTable example_grammar) (''Expr -> *&expr E; Init -> *Expr;'', ''Expr'') = None \<and>
   \<not> terminal_prefix ''Expr''"
proof -
  have a: "map_of (actionTable example_grammar) (''Expr -> *&expr E; Init -> *Expr;'', ''&expr'')
     = Some (shiftAction ''E -> *_NUM &+ E; E -> *_NUM; Expr -> &expr *E;'')"
    by (simp add: example_grammar_def)
  have g: "map_of (gotoTable example_grammar) (''Expr -> *&expr E; Init -> *Expr;'', ''Expr'')
     = Some (gotoAction ''Init -> Expr*;'')"
    by (simp add: example_grammar_def)
  from BuildItems_tables_disjoint [OF BuildItems_example, of "''Expr -> *&expr E; Init -> *Expr;''" "''&expr''"] a
  have 1: "map_of (gotoTable example_grammar) (''Expr -> *&expr E; Init -> *Expr;'', ''&expr'') = None"
    "terminal_prefix ''&expr''" by auto
  from BuildItems_tables_disjoint [OF BuildItems_example, of "''Expr -> *&expr E; Init -> *Expr;''" "''Expr''"] g
  have 2: "map_of (actionTable example_grammar) (''Expr -> *&expr E; Init -> *Expr;'', ''Expr'') = None"
    "\<not> terminal_prefix ''Expr''" by auto
  from BuildItems_example a g 1 2 show ?thesis by simp
qed

text \<open>
  In the grammar of the example, the initial state is a stored state and \<open>_EOF\<close> a column
  of the action table, and neither table has an entry for the two.
\<close>

theorem BuildItems_tables_disjoint_counterexample:
  "BuildItems insertion_order example_rules = Some (Inr example_grammar) \<and>
   map_of (states example_grammar) (initialState example_grammar)
     = Some \<lparr>Items = [\<lparr>ItemLHS = ''Expr'', ItemRHS = [''&expr'', ''E''], DotPos = 0\<rparr>,
                      \<lparr>ItemLHS = ''Init'', ItemRHS = [''Expr''], DotPos = 0\<rparr>]\<rparr> \<and>
   ''_EOF'' \<in> columns (actionTable example_grammar) \<and>
   map_of (actionTable example_grammar) (initialState example_grammar, ''_EOF'') = None \<and>
   map_of (gotoTable example_grammar) (initialState example_grammar, ''_EOF'') = None"
  using BuildItems_example by (simp add: example_grammar_def columns_def)

text \<open>
  The tables of a grammar whose start rule has two symbols do not meet the condition
  \<open>start_entry\<close>: with the start rule \<open>Init -> number number\<close>, Parse accepts \<open>1 2\<close> with
  three keys on the state stack and two values on the result stack, and returns the first
  value.
\<close>

lemma Parse_pair_start:
  "BuildItems insertion_order pair_rules = Some (Inr pair_grammar) \<and>
   Parse_run insertion_order fmt_line_col noloc pair_grammar
       [tk Number ''1'' 1, tk Number ''2'' 3, tk EOF [] 4]
     = Some (Returned (TokenVal (tk Number ''1'' 1)),
             ([tk EOF [] 4],
              [''Init -> *_NUM _NUM;'', ''Init -> _NUM *_NUM;'', ''Init -> _NUM _NUM*;''],
              [TokenVal (tk Number ''1'' 1), TokenVal (tk Number ''2'' 3)])) \<and>
   map_of (actionTable pair_grammar) (''Init -> _NUM _NUM*;'', symbol_of [] (tk EOF [] 4)) = Some acceptAction \<and>
   length [''Init -> *_NUM _NUM;'', ''Init -> _NUM *_NUM;'', ''Init -> _NUM _NUM*;''] = 3 \<and>
   length [TokenVal (tk Number ''1'' 1) :: unit val, TokenVal (tk Number ''2'' 3)] = 2"
  using BuildItems_pair Parse_run_pair by (simp add: pair_grammar_def symbol_of_def tk_def)

text \<open>
  With the grammar of the example, after \<open>expr\<close> the token \<open>+\<close> at column 6 finds no
  action; the row of the state has the one column \<open>_NUM\<close>.
\<close>

theorem Parse_missing_action_error_witness:
  "is_order insertion_order \<and>
   keywords_of insertion_order (actionTable example_grammar) = Inr [''expr'', ''+''] \<and>
   map_of (actionTable example_grammar)
       (last [''Expr -> *&expr E; Init -> *Expr;'', ''E -> *_NUM &+ E; E -> *_NUM; Expr -> &expr *E;''],
        symbol_of [''expr'', ''+''] (tk Symbol ''+'' 6)) = None \<and>
   (\<exists>cols. distinct cols \<and>
      set cols = {c. map_of (actionTable example_grammar)
                       (last [''Expr -> *&expr E; Init -> *Expr;'',
                              ''E -> *_NUM &+ E; E -> *_NUM; Expr -> &expr *E;''], c) \<noteq> None} \<and>
      Parse_step insertion_order fmt_line_col noloc example_grammar
          (terminals_of insertion_order (actionTable example_grammar)) [''expr'', ''+'']
          (tk Symbol ''+'' 6 # [tk EOF [] 7],
           [''Expr -> *&expr E; Init -> *Expr;'', ''E -> *_NUM &+ E; E -> *_NUM; Expr -> &expr *E;''],
           [TokenVal (tk Word ''expr'' 1)])
        = Stop (Failed (error_text fmt_line_col (tk Symbol ''+'' 6) (map render cols))) \<and>
      Parse_loop insertion_order fmt_line_col noloc example_grammar
          (terminals_of insertion_order (actionTable example_grammar)) [''expr'', ''+'']
          (tk Symbol ''+'' 6 # [tk EOF [] 7],
           [''Expr -> *&expr E; Init -> *Expr;'', ''E -> *_NUM &+ E; E -> *_NUM; Expr -> &expr *E;''],
           [TokenVal (tk Word ''expr'' 1)])
        = Some (Failed (error_text fmt_line_col (tk Symbol ''+'' 6) (map render cols)),
                (tk Symbol ''+'' 6 # [tk EOF [] 7],
                 [''Expr -> *&expr E; Init -> *Expr;'', ''E -> *_NUM &+ E; E -> *_NUM; Expr -> &expr *E;''],
                 [TokenVal (tk Word ''expr'' 1)]))) \<and>
   Parse_step insertion_order fmt_line_col noloc example_grammar
       (terminals_of insertion_order (actionTable example_grammar)) [''expr'', ''+'']
       (tk Symbol ''+'' 6 # [tk EOF [] 7],
        [''Expr -> *&expr E; Init -> *Expr;'', ''E -> *_NUM &+ E; E -> *_NUM; Expr -> &expr *E;''],
        [TokenVal (tk Word ''expr'' 1)])
     = Stop (Failed ''expected number at line 1:6'') \<and>
   render ''&expr'' = CHR 0x27 # ''expr'' @ [CHR 0x27] \<and> render ''_NUM'' = ''number''"
proof -
  let ?ss = "[''Expr -> *&expr E; Init -> *Expr;'', ''E -> *_NUM &+ E; E -> *_NUM; Expr -> &expr *E;'']"
  have ss: "?ss \<noteq> []" by simp
  have missing: "map_of (actionTable example_grammar) (last ?ss, symbol_of [''expr'', ''+''] (tk Symbol ''+'' 6)) = None"
    by (simp add: example_grammar_def symbol_of_def tk_def)
  have step: "Parse_step insertion_order fmt_line_col noloc example_grammar
       (terminals_of insertion_order (actionTable example_grammar)) [''expr'', ''+'']
       (tk Symbol ''+'' 6 # [tk EOF [] 7], ?ss, [TokenVal (tk Word ''expr'' 1)])
     = Stop (Failed ''expected number at line 1:6'')"
    by code_simp
  note c = Parse_missing_action_error [OF is_order_insertion keywords_example ss missing, of fmt_line_col noloc "[tk EOF [] 7]"
      "[TokenVal (tk Word ''expr'' 1)]" "''expr''"]
  from c is_order_insertion keywords_example missing step show ?thesis by blast
qed

text \<open>
  On the tokens \<open>expr +\<close> Parse returns the error \<open>expected number at line 1:6\<close>, where
  the location of the token prints as \<open>1:6\<close>: the text is not \<open>expected number at 1:6\<close>.
\<close>

theorem Parse_missing_action_error_counterexample:
  "Parse insertion_order fmt_line_col noloc example_grammar
       [tk Word ''expr'' 1, tk Symbol ''+'' 6, tk EOF [] 7]
     = Some (Failed ''expected number at line 1:6'') \<and>
   fmt_line_col (Loc (tk Symbol ''+'' 6)) = ''1:6'' \<and>
   Failed ''expected number at line 1:6''
     \<noteq> (Failed (''expected '' @ render ''_NUM'' @ '' at '' @ fmt_line_col (Loc (tk Symbol ''+'' 6))) :: unit outcome)"
proof -
  have 1: "Parse insertion_order fmt_line_col noloc example_grammar
       [tk Word ''expr'' 1, tk Symbol ''+'' 6, tk EOF [] 7]
     = Some (Failed ''expected number at line 1:6'')"
    by (simp add: Parse_def Parse_run_example_error)
  have 2: "fmt_line_col (Loc (tk Symbol ''+'' 6)) = ''1:6''" by code_simp
  have 3: "render ''_NUM'' = ''number''" by code_simp
  from 1 2 3 show ?thesis by simp
qed

text \<open>
  The parse of \<open>expr 1 + 2\<close> with the grammar of the example: after four passes of the
  loop the EOF token is the only token left, and it stays.
\<close>

theorem Parse_front_token_in_bounds_witness:
  "BuildItems insertion_order example_rules = Some (Inr example_grammar) \<and>
   ''_EOF'' \<notin> \<Union> (set ` RHS ` set example_rules) \<and>
   Type (last [tk Word ''expr'' 1, tk Number ''1'' 6, tk Symbol ''+'' 7, tk Number ''2'' 8, tk EOF [] 9]) = EOF \<and>
   map_of (actionTable example_grammar) (''Init -> Expr*;'', ''_EOF'')
     \<noteq> Some (shiftAction ''Expr -> *&expr E; Init -> *Expr;'') \<and>
   Parse_configs insertion_order fmt_line_col noloc example_grammar
       (terminals_of insertion_order (actionTable example_grammar)) [''expr'', ''+''] 4
       ([tk Word ''expr'' 1, tk Number ''1'' 6, tk Symbol ''+'' 7, tk Number ''2'' 8, tk EOF [] 9],
        [initialState example_grammar], [])
     = Some ([tk EOF [] 9],
             [''Expr -> *&expr E; Init -> *Expr;'', ''E -> *_NUM &+ E; E -> *_NUM; Expr -> &expr *E;'',
              ''E -> _NUM *&+ E; E -> _NUM*;'', ''E -> *_NUM &+ E; E -> *_NUM; E -> _NUM &+ *E;'',
              ''E -> _NUM *&+ E; E -> _NUM*;''],
             [TokenVal (tk Word ''expr'' 1), TokenVal (tk Number ''1'' 6), TokenVal (tk Symbol ''+'' 7),
              TokenVal (tk Number ''2'' 8)]) \<and>
   [tk EOF [] 9] \<noteq> [] \<and> Type (last [tk EOF [] 9]) = EOF"
proof -
  let ?tokens = "[tk Word ''expr'' 1, tk Number ''1'' 6, tk Symbol ''+'' 7, tk Number ''2'' 8, tk EOF [] 9]"
  have noEOF: "''_EOF'' \<notin> \<Union> (set ` RHS ` set example_rules)" by (simp add: example_rules_def)
  have toks: "?tokens \<noteq> []" "Type (last ?tokens) = EOF" by (simp_all add: tk_def)
  note c = Parse_front_token_in_bounds [OF BuildItems_example noEOF toks, of insertion_order fmt_line_col noloc
      "terminals_of insertion_order (actionTable example_grammar)" "[''expr'', ''+'']"]
  from c have 1: "map_of (actionTable example_grammar) (''Init -> Expr*;'', ''_EOF'')
     \<noteq> Some (shiftAction ''Expr -> *&expr E; Init -> *Expr;'')" by blast
  from c Parse_configs_example have 2: "[tk EOF [] 9] \<noteq> [] \<and> Type (last [tk EOF [] 9]) = EOF" by blast
  from BuildItems_example noEOF toks(2) 1 Parse_configs_example 2 show ?thesis by simp
qed

section \<open>The rules of BuildOperatorRules\<close>





text \<open>
  C1. BuildOperatorRules does not arrange the priorities in ascending order. The function
  given to sort.Slice compares the two indices, not the priorities at them, so the sort
  exchanges nothing and the priorities stay in the order in which the range over \<open>opMap\<close>
  yields them (lemma \<open>prios_of_unsorted\<close>). For the operators \<open>*\<close> of priority 2 and
  \<open>+\<close> of priority 1, with the map ranged over in the order of insertion, the priorities
  are \<open>[2, 1]\<close>: the threading rule of the root refers to \<open>EOp2\<close>, the level \<open>EOp2\<close>
  refers to \<open>EOp1\<close>, and \<open>EOp1\<close> refers to the leaf. The chain runs from the highest
  priority to the lowest.
\<close>

theorem BuildOperatorRules_priorities_unsorted:
  "prios_of insertion_order
       [\<lparr>Associativity = LeftAssociative, Priority = 2, Symbols = [''&*'']\<rparr>,
        \<lparr>Associativity = LeftAssociative, Priority = 1, Symbols = [''&+'']\<rparr>] = [2, 1] \<and>
   map_sum id (map (\<lambda>rule. (LHS rule, RHS rule)))
     (BuildOperatorRules insertion_order False ''E'' ''T''
        [\<lparr>Associativity = LeftAssociative, Priority = 2, Symbols = [''&*'']\<rparr>,
         \<lparr>Associativity = LeftAssociative, Priority = 1, Symbols = [''&+'']\<rparr>] BinaryOperator)
     = Inr [(''E'', [''EOp2'']),
            (''EOp2'', [''EOp2'', ''&*'', ''EOp1'']), (''EOp2'', [''EOp1'']),
            (''EOp1'', [''EOp1'', ''&+'', ''T'']), (''EOp1'', [''T''])]"
  by code_simp

text \<open>
  With one variable \<open>op\<close> for all passes of the loop over the operators of a level, the
  folds of the level all read the last operator: for the operators \<open>+\<close> and \<open>-\<close> of
  priority 1, the fold of the rule \<open>EOp1 -> EOp1 &+ T\<close>, applied to \<open>a\<close>, \<open>+\<close>,
  \<open>b\<close>, builds \<open>BinaryOperator - a b\<close>.
\<close>

lemma BuildOperatorRules_shared_variable:
  "map_sum id (map (describe [Leaf ''a'', Leaf ''+'', Leaf ''b'']))
     (BuildOperatorRules insertion_order False ''E'' ''T''
        [\<lparr>Associativity = LeftAssociative, Priority = 1, Symbols = [''&+'']\<rparr>,
         \<lparr>Associativity = LeftAssociative, Priority = 1, Symbols = [''&-'']\<rparr>] BinaryOperator)
     = Inr [(''E'', [''EOp1''], Inr (Leaf ''a'')),
            (''EOp1'', [''EOp1'', ''&+'', ''T''], Inr (BinaryOperator ''-'' (Leaf ''a'') (Leaf ''b''))),
            (''EOp1'', [''T''], Inr (Leaf ''a'')),
            (''EOp1'', [''EOp1'', ''&-'', ''T''], Inr (BinaryOperator ''-'' (Leaf ''a'') (Leaf ''b''))),
            (''EOp1'', [''T''], Inr (Leaf ''a''))] \<and>
   Operator_Name \<lparr>Associativity = LeftAssociative, Priority = 1, Symbols = [''&+'']\<rparr> = Inr ''+''"
  by code_simp

lemma binary_fold_own_name:
  assumes "Operator_Name op = Inr name" and "r \<noteq> []"
  shows "Conv (hd (op_rules builder sym1 sym2 True last_op op)) r = Inr (builder name (hd r) (last r))"
  using assms by (simp add: op_rules_def binary_fold_def Let_def hd_conv_nth last_conv_nth)

lemma binary_fold_shared_name:
  assumes "Operator_Name last_op = Inr name" and "r \<noteq> []"
  shows "Conv (hd (op_rules builder sym1 sym2 False last_op op)) r = Inr (builder name (hd r) (last r))"
  using assms by (simp add: op_rules_def binary_fold_def Let_def hd_conv_nth last_conv_nth)














section \<open>Further statements at the examples\<close>


lemma start_entry_pair: "\<not> start_entry pair_grammar"
  by code_simp

text \<open>
  BuildOperatorRules emits the threading rule of a level once for every operator of the
  level. With two operators on a level the rule \<open>EOp1 -> T\<close> stands twice in the list,
  and NewGrammar panics with a conflict between its two reduce actions, whichever variable
  the folds read.
\<close>

lemma NewGrammar_two_operators:
  "tables_of (NewGrammar insertion_order (operator_grammar True)) = Some (Inl (Conflict ''_EOF'' (reduceAction 3))) \<and>
   tables_of (NewGrammar insertion_order (operator_grammar False)) = Some (Inl (Conflict ''_EOF'' (reduceAction 3)))"
  by code_simp




text \<open>
  With the grammar of the example, the word \<open>expr\<close> is the terminal \<open>&expr\<close> and is
  shifted in the initial state; the word \<open>x\<close> is an identifier, for which the initial
  state has no action.
\<close>

theorem Parse_word_classification_witness:
  "is_order insertion_order \<and>
   keywords_of insertion_order (actionTable example_grammar) = Inr [''expr'', ''+''] \<and>
   Type (tk Word ''expr'' 1) = Word \<and> Type (tk Word ''x'' 1) = Word \<and>
   Parse_run insertion_order fmt_line_col noloc example_grammar [tk Word ''expr'' 1, tk Number ''1'' 6, tk EOF [] 7]
     = Parse_loop insertion_order fmt_line_col noloc example_grammar
         (terminals_of insertion_order (actionTable example_grammar)) [''expr'', ''+'']
         ([tk Word ''expr'' 1, tk Number ''1'' 6, tk EOF [] 7], [initialState example_grammar], []) \<and>
   set [''expr'', ''+''] = tl ` {c \<in> columns (actionTable example_grammar). hd c = CHR ''&''} \<and>
   ''&expr'' \<in> columns (actionTable example_grammar) \<and>
   symbol_of [''expr'', ''+''] (tk Word ''expr'' 1) = ''&expr'' \<and>
   Parse_loop insertion_order fmt_line_col noloc example_grammar
       (terminals_of insertion_order (actionTable example_grammar)) [''expr'', ''+'']
       (tk Word ''expr'' 1 # [tk Number ''1'' 6, tk EOF [] 7], [initialState example_grammar], [])
     = Parse_loop insertion_order fmt_line_col noloc example_grammar
         (terminals_of insertion_order (actionTable example_grammar)) [''expr'', ''+'']
         ([tk Number ''1'' 6, tk EOF [] 7],
          [initialState example_grammar] @ [''E -> *_NUM &+ E; E -> *_NUM; Expr -> &expr *E;''],
          [] @ [TokenVal (tk Word ''expr'' 1)]) \<and>
   ''&x'' \<notin> columns (actionTable example_grammar) \<and>
   symbol_of [''expr'', ''+''] (tk Word ''x'' 1) = ''_ID'' \<and>
   Parse_loop insertion_order fmt_line_col noloc example_grammar
       (terminals_of insertion_order (actionTable example_grammar)) [''expr'', ''+'']
       (tk Word ''x'' 1 # [tk EOF [] 2], [initialState example_grammar], [])
     = Some (Failed (''expected '' @ [CHR 0x27] @ ''expr'' @ [CHR 0x27] @ '' at line 1:1''),
             (tk Word ''x'' 1 # [tk EOF [] 2], [initialState example_grammar], []))"
proof -
  let ?ts = "terminals_of insertion_order (actionTable example_grammar)"
  have w: "Type (tk Word ''expr'' 1) = Word" "Type (tk Word ''x'' 1) = Word" by (simp_all add: tk_def)
  have ss: "[initialState example_grammar] \<noteq> []" by simp
  have c: "''&expr'' \<in> columns (actionTable example_grammar)" "''&x'' \<notin> columns (actionTable example_grammar)"
    by (simp_all add: example_grammar_def columns_def)
  have a1: "map_of (actionTable example_grammar) (last [initialState example_grammar], ''&expr'')
      = Some (shiftAction ''E -> *_NUM &+ E; E -> *_NUM; Expr -> &expr *E;'')"
    by (simp add: example_grammar_def)
  have a2: "map_of (actionTable example_grammar) (last [initialState example_grammar], ''_ID'') = None"
    by (simp add: example_grammar_def)
  have na: "no_action insertion_order fmt_line_col (actionTable example_grammar) ?ts
        (last [initialState example_grammar]) (tk Word ''x'' 1)
      = (Failed (''expected '' @ [CHR 0x27] @ ''expr'' @ [CHR 0x27] @ '' at line 1:1'') :: unit outcome)"
    by code_simp
  note e = Parse_word_classification [OF is_order_insertion keywords_example w(1) ss, of fmt_line_col noloc
      "[tk Word ''expr'' 1, tk Number ''1'' 6, tk EOF [] 7]" ?ts "[tk Number ''1'' 6, tk EOF [] 7]" "[]"]
  note x = Parse_word_classification [OF is_order_insertion keywords_example w(2) ss, of fmt_line_col noloc
      "[]" ?ts "[tk EOF [] 2]" "[]"]
  from e have 1: "Parse_run insertion_order fmt_line_col noloc example_grammar [tk Word ''expr'' 1, tk Number ''1'' 6, tk EOF [] 7]
     = Parse_loop insertion_order fmt_line_col noloc example_grammar ?ts [''expr'', ''+'']
         ([tk Word ''expr'' 1, tk Number ''1'' 6, tk EOF [] 7], [initialState example_grammar], [])"
    and 2: "set [''expr'', ''+''] = tl ` {c \<in> columns (actionTable example_grammar). hd c = CHR ''&''}"
    by blast+
  from e c(1) have 3: "symbol_of [''expr'', ''+''] (tk Word ''expr'' 1) = ''&expr''" by (simp add: tk_def)
  from e c(1) a1 have 4: "Parse_loop insertion_order fmt_line_col noloc example_grammar ?ts [''expr'', ''+'']
       (tk Word ''expr'' 1 # [tk Number ''1'' 6, tk EOF [] 7], [initialState example_grammar], [])
     = Parse_loop insertion_order fmt_line_col noloc example_grammar ?ts [''expr'', ''+'']
         ([tk Number ''1'' 6, tk EOF [] 7],
          [initialState example_grammar] @ [''E -> *_NUM &+ E; E -> *_NUM; Expr -> &expr *E;''],
          [] @ [TokenVal (tk Word ''expr'' 1)])"
    by (simp add: tk_def)
  from x c(2) have 5: "symbol_of [''expr'', ''+''] (tk Word ''x'' 1) = ''_ID''" by (simp add: tk_def)
  from x c(2) a2 na have 6: "Parse_loop insertion_order fmt_line_col noloc example_grammar ?ts [''expr'', ''+'']
       (tk Word ''x'' 1 # [tk EOF [] 2], [initialState example_grammar], [])
     = Some (Failed (''expected '' @ [CHR 0x27] @ ''expr'' @ [CHR 0x27] @ '' at line 1:1''),
             (tk Word ''x'' 1 # [tk EOF [] 2], [initialState example_grammar], []))"
    by (simp add: tk_def)
  from is_order_insertion keywords_example w 1 2 c(1) 3 4 c(2) 5 6 show ?thesis by (intro conjI)
qed

end
